theory Spec2Isabelle
  imports Main
begin

section \<open>Python strings\<close>

text \<open>
  A Python \<open>str\<close> is a sequence of Unicode code points, so it is modelled as a list of
  natural numbers. \<open>py\<close> turns a literal of the source into such a list. The text of a file
  is the string that reading it in text mode returns; the bytes of a downloaded image are a
  list of numbers as well.
\<close>

type_synonym pystr = "nat list"

definition py :: "string \<Rightarrow> pystr" where
  "py s = map of_char s"

fun strip_prefix :: "'a list \<Rightarrow> 'a list \<Rightarrow> 'a list option" where
  "strip_prefix [] s = Some s"
| "strip_prefix (p # ps) [] = None"
| "strip_prefix (p # ps) (c # cs) = (if p = c then strip_prefix ps cs else None)"

section \<open>The regular expression of process_html_file\<close>

text \<open>
  The pattern of \<open>process_html_file\<close> is built from literals, repetitions of a character
  class (greedy \<open>*\<close>, lazy \<open>*?\<close> and \<open>+?\<close>) and two capture groups. \<open>rmatch\<close> is the
  backtracking matcher of \<open>re\<close> for such patterns: the alternatives of a repetition are tried
  in the order of its greed, and the first complete match wins. It returns the end position
  and the positions where each group opened and closed.

  \<open>NotCh c\<close> is the class \<open>[^c]\<close>; \<open>Space\<close> is \<open>\s\<close> on a \<open>str\<close> pattern, that is the code
  points for which \<open>str.isspace\<close> holds.
\<close>

datatype cls = NotCh nat | Space

fun in_cls :: "cls \<Rightarrow> nat \<Rightarrow> bool" where
  "in_cls (NotCh c) x = (x \<noteq> c)"
| "in_cls Space x =
     ((9 \<le> x \<and> x \<le> 13) \<or> (28 \<le> x \<and> x \<le> 32) \<or> x = 133 \<or> x = 160 \<or> x = 5760
      \<or> (8192 \<le> x \<and> x \<le> 8202) \<or> x = 8232 \<or> x = 8233 \<or> x = 8239 \<or> x = 8287
      \<or> x = 12288)"

datatype greed = Greedy | Lazy

datatype atom = Lit pystr | Star greed cls | Plus greed cls | GOpen nat | GClose nat

type_synonym caps = "(nat \<rightharpoonup> nat) \<times> (nat \<rightharpoonup> nat)"

fun rmatch :: "atom list \<Rightarrow> pystr \<Rightarrow> nat \<Rightarrow> caps \<Rightarrow> (nat \<times> caps) option" where
  "rmatch [] s pos cp = Some (pos, cp)"
| "rmatch (Lit l # r) s pos cp =
     (case strip_prefix l s of
        None \<Rightarrow> None
      | Some s' \<Rightarrow> rmatch r s' (pos + length l) cp)"
| "rmatch (GOpen n # r) s pos cp = rmatch r s pos ((fst cp)(n \<mapsto> pos), snd cp)"
| "rmatch (GClose n # r) s pos cp = rmatch r s pos (fst cp, (snd cp)(n \<mapsto> pos))"
| "rmatch (Star Greedy k # r) [] pos cp = rmatch r [] pos cp"
| "rmatch (Star Greedy k # r) (c # cs) pos cp =
     (if in_cls k c then
        (case rmatch (Star Greedy k # r) cs (Suc pos) cp of
           Some res \<Rightarrow> Some res
         | None \<Rightarrow> rmatch r (c # cs) pos cp)
      else rmatch r (c # cs) pos cp)"
| "rmatch (Star Lazy k # r) [] pos cp = rmatch r [] pos cp"
| "rmatch (Star Lazy k # r) (c # cs) pos cp =
     (case rmatch r (c # cs) pos cp of
        Some res \<Rightarrow> Some res
      | None \<Rightarrow> if in_cls k c then rmatch (Star Lazy k # r) cs (Suc pos) cp else None)"
| "rmatch (Plus g k # r) [] pos cp = None"
| "rmatch (Plus g k # r) (c # cs) pos cp =
     (if in_cls k c then rmatch (Star g k # r) cs (Suc pos) cp else None)"

text \<open>
  The pattern of the source, atom by atom (34 is the double quote, 62 is \<open>>\<close>, 41 is the
  closing parenthesis):
  \<^verbatim>\<open>class="[^"]*wsite-section-bg-image[^"]*"[^>]*?style="([^"]*?background-image:\s*url\((_/uploads/[^)]+?)\.html\)[^"]*?)"\<close>
\<close>

definition pattern :: "atom list" where
  \<open>pattern =
    [Lit (py ''class="''), Star Greedy (NotCh 34), Lit (py ''wsite-section-bg-image''),
     Star Greedy (NotCh 34), Lit (py ''"''), Star Lazy (NotCh 62), Lit (py ''style="''),
     GOpen 1, Star Lazy (NotCh 34), Lit (py ''background-image:''), Star Greedy Space,
     Lit (py ''url(''), GOpen 2, Lit (py ''_/uploads/''), Plus Lazy (NotCh 41), GClose 2,
     Lit (py ''.html)''), Star Lazy (NotCh 34), GClose 1, Lit (py ''"'')]\<close>

text \<open>\<open>search\<close> finds the leftmost match at or after the current position.\<close>

fun search :: "atom list \<Rightarrow> pystr \<Rightarrow> nat \<Rightarrow> (nat \<times> nat \<times> caps) option" where
  "search re [] pos =
     (case rmatch re [] pos (Map.empty, Map.empty) of
        Some (e, cp) \<Rightarrow> Some (pos, e, cp)
      | None \<Rightarrow> None)"
| "search re (c # cs) pos =
     (case rmatch re (c # cs) pos (Map.empty, Map.empty) of
        Some (e, cp) \<Rightarrow> Some (pos, e, cp)
      | None \<Rightarrow> search re cs (Suc pos))"

definition group :: "pystr \<Rightarrow> caps \<Rightarrow> nat \<Rightarrow> pystr" where
  "group text cp n =
     (case (fst cp n, snd cp n) of
        (Some a, Some b) \<Rightarrow> take (b - a) (drop a text)
      | _ \<Rightarrow> [])"

text \<open>
  \<open>re.findall\<close> with two groups: the pairs of group strings of the successive
  non-overlapping matches, the scan resuming where the last match ended. A match of
  \<open>pattern\<close> is never empty (it starts with a literal); after an empty match the scan moves
  one position on.
\<close>

function findall_from :: "atom list \<Rightarrow> pystr \<Rightarrow> pystr \<Rightarrow> nat \<Rightarrow> (pystr \<times> pystr) list" where
  "findall_from re text s pos =
     (case search re s pos of
        None \<Rightarrow> []
      | Some (st, e, cp) \<Rightarrow>
          (group text cp 1, group text cp 2) #
          (let nxt = (if st < e then e else Suc st) in
           if pos < nxt \<and> nxt - pos \<le> length s
           then findall_from re text (drop (nxt - pos) s) nxt
           else []))"
  by pat_completeness auto
termination
  by (relation "measure (\<lambda>(re, text, s, pos). length s)") auto

declare findall_from.simps [simp del]

definition findall :: "atom list \<Rightarrow> pystr \<Rightarrow> (pystr \<times> pystr) list" where
  "findall re text = findall_from re text text 0"

section \<open>Python string operations\<close>

definition startswith :: "pystr \<Rightarrow> pystr \<Rightarrow> bool" where
  "startswith s p = (strip_prefix p s \<noteq> None)"

text \<open>\<open>contains sub s\<close> is \<open>sub in s\<close>.\<close>

fun contains :: "pystr \<Rightarrow> pystr \<Rightarrow> bool" where
  "contains sub [] = (sub = [])"
| "contains sub (c # cs) = (strip_prefix sub (c # cs) \<noteq> None \<or> contains sub cs)"

text \<open>\<open>replace_first old new s\<close> is \<open>s.replace(old, new, 1)\<close>.\<close>

fun replace_first :: "pystr \<Rightarrow> pystr \<Rightarrow> pystr \<Rightarrow> pystr" where
  "replace_first old new [] = (if old = [] then new else [])"
| "replace_first old new (c # cs) =
     (case strip_prefix old (c # cs) of
        Some r \<Rightarrow> new @ r
      | None \<Rightarrow> c # replace_first old new cs)"

text \<open>
  \<open>replace_all old new s\<close> is \<open>s.replace(old, new)\<close>: every occurrence, left to right,
  without overlap; an empty \<open>old\<close> matches before every character and at the end.
\<close>

function replace_all :: "pystr \<Rightarrow> pystr \<Rightarrow> pystr \<Rightarrow> pystr" where
  "replace_all old new s =
     (if old = [] then new @ concat (map (\<lambda>c. c # new) s)
      else case strip_prefix old s of
             Some r \<Rightarrow> new @ replace_all old new r
           | None \<Rightarrow> (case s of [] \<Rightarrow> [] | c # cs \<Rightarrow> c # replace_all old new cs))"
  by pat_completeness auto
termination
proof -
  have len: "length s = length p + length r" if "strip_prefix p s = Some r"
    for p s r :: pystr
    using that by (induction p s rule: strip_prefix.induct) (auto split: if_splits)
  show ?thesis
    by (relation "measure (\<lambda>(old, new, s). length s)") (auto dest: len)
qed

declare replace_all.simps [simp del]

section \<open>The environment and the state of the world\<close>

text \<open>
  The program talks to a remote host and to the file system. Both are parameters of the
  model. \<open>http_get n url\<close> is what \<open>requests.get(url, timeout=10)\<close> does when \<open>n\<close> requests
  have been issued before: it raises (a transport error or a timeout) or returns a response.
  \<open>fs_write n path\<close> tells whether creating and writing the file \<open>path\<close> raises at that
  moment. \<open>dir_exists\<close> and \<open>glob_html\<close> are what \<open>Path('_').exists()\<close> and
  \<open>Path('_').glob('*.html')\<close> return. Console output is left out of these definitions;
  it is added for \<open>download_image\<close> in a section of its own below.

  The world is the content of the files and the log of the URLs requested so far. A write
  that raises leaves the files as they were.
\<close>

datatype exn = RequestException | OSError | UnicodeEncodeError

datatype response = Response (status_code: int) (content: pystr)

record env =
  http_get :: "nat \<Rightarrow> pystr \<Rightarrow> exn + response"
  fs_write :: "nat \<Rightarrow> pystr \<Rightarrow> exn option"
  dir_exists :: bool
  glob_html :: "pystr list"

record world =
  files :: "pystr \<rightharpoonup> pystr"
  requests :: "pystr list"

section \<open>download_image\<close>

text \<open>
  \<open>try_ext\<close> is the body of the \<open>try\<close> block for one extension: it raises, returns from
  the function, or falls through to the next iteration. \<open>download_loop\<close> is the \<open>for\<close> loop
  with its \<open>except Exception\<close> handler, which only prints.
\<close>

datatype attempt = Raised exn | Returned pystr | Fallthrough

definition try_ext :: "env \<Rightarrow> pystr \<Rightarrow> pystr \<Rightarrow> world \<Rightarrow> attempt \<times> world" where
  "try_ext ev remote_path ext w =
     (let url = py ''https://tgv4plus.com/'' @ remote_path @ ext;
          w1 = w\<lparr>requests := requests w @ [url]\<rparr>
      in case http_get ev (length (requests w)) url of
           Inl e \<Rightarrow> (Raised e, w1)
         | Inr resp \<Rightarrow>
             if status_code resp = 200 then
               (let local_path = py ''_/'' @ remote_path @ ext
                in case fs_write ev (length (requests w1)) local_path of
                     Some e \<Rightarrow> (Raised e, w1)
                   | None \<Rightarrow>
                       (Returned (py ''./'' @ remote_path @ ext),
                        w1\<lparr>files := (files w1)(local_path \<mapsto> content resp)\<rparr>))
             else (Fallthrough, w1))"

fun download_loop :: "env \<Rightarrow> pystr \<Rightarrow> pystr list \<Rightarrow> world \<Rightarrow> (exn + pystr option) \<times> world" where
  "download_loop ev remote_path [] w = (Inr None, w)"
| "download_loop ev remote_path (ext # exts) w =
     (case try_ext ev remote_path ext w of
        (Returned r, w1) \<Rightarrow> (Inr (Some r), w1)
      | (Raised e, w1) \<Rightarrow> download_loop ev remote_path exts w1
      | (Fallthrough, w1) \<Rightarrow> download_loop ev remote_path exts w1)"

definition extensions :: "pystr list" where
  "extensions = [py ''.png'', py ''.jpg'', py ''.jpeg'']"

definition strip_root :: "pystr \<Rightarrow> pystr" where
  "strip_root image_path =
     (if startswith image_path (py ''_/'') then drop 2 image_path else image_path)"

definition download_image :: "env \<Rightarrow> pystr \<Rightarrow> world \<Rightarrow> (exn + pystr option) \<times> world" where
  "download_image ev image_path w = download_loop ev (strip_root image_path) extensions w"

section \<open>download_image with its console output\<close>

text \<open>
  \<open>download_image\<close> prints a line before each \<open>try\<close> block, a line after a successful
  save (inside the \<open>try\<close> block) and a line inside the \<open>except\<close> handler. A \<open>print\<close> can
  raise, for instance \<open>UnicodeEncodeError\<close> on a console that cannot encode the check mark
  (code point 10003) or the cross (code point 10007) of these lines. \<open>print_error n s\<close>
  tells whether printing the line \<open>s\<close> raises when \<open>n\<close> lines have been printed;
  \<open>exn_str\<close> is the text of an exception. The state is the world together with the lines
  printed so far. The definitions below are \<open>try_ext\<close> and \<open>download_loop\<close> with every
  \<open>print\<close> of the source in its place.
\<close>

record console =
  print_error :: "nat \<Rightarrow> pystr \<Rightarrow> exn option"
  exn_str :: "exn \<Rightarrow> pystr"

definition print_line :: "console \<Rightarrow> pystr \<Rightarrow> pystr list \<Rightarrow> exn option \<times> pystr list" where
  "print_line con s out =
     (case print_error con (length out) s of
        Some e \<Rightarrow> (Some e, out)
      | None \<Rightarrow> (None, out @ [s]))"

definition try_ext_out ::
  "console \<Rightarrow> env \<Rightarrow> pystr \<Rightarrow> pystr \<Rightarrow> world \<times> pystr list \<Rightarrow> attempt \<times> (world \<times> pystr list)" where
  "try_ext_out con ev remote_path ext s =
     (case try_ext ev remote_path ext (fst s) of
        (Returned r, w2) \<Rightarrow>
          (case print_line con
                  (py ''  '' @ [10003] @ py '' Downloaded and saved to: ''
                   @ py ''_/'' @ remote_path @ ext) (snd s) of
             (Some e, out) \<Rightarrow> (Raised e, (w2, out))
           | (None, out) \<Rightarrow> (Returned r, (w2, out)))
      | (a, w1) \<Rightarrow> (a, (w1, snd s)))"

fun download_loop_out ::
  "console \<Rightarrow> env \<Rightarrow> pystr \<Rightarrow> pystr list \<Rightarrow> world \<times> pystr list
   \<Rightarrow> (exn + pystr option) \<times> (world \<times> pystr list)" where
  "download_loop_out con ev remote_path [] s = (Inr None, s)"
| "download_loop_out con ev remote_path (ext # exts) s =
     (case print_line con
             (py ''  Trying to download: '' @ py ''https://tgv4plus.com/'' @ remote_path @ ext)
             (snd s) of
        (Some e, out) \<Rightarrow> (Inl e, (fst s, out))
      | (None, out) \<Rightarrow>
          (case try_ext_out con ev remote_path ext (fst s, out) of
             (Returned r, s1) \<Rightarrow> (Inr (Some r), s1)
           | (Fallthrough, s1) \<Rightarrow> download_loop_out con ev remote_path exts s1
           | (Raised e, s1) \<Rightarrow>
               (case print_line con
                       (py ''  '' @ [10007] @ py '' Failed to download '' @ ext @ py '': ''
                        @ exn_str con e) (snd s1) of
                  (Some e', out1) \<Rightarrow> (Inl e', (fst s1, out1))
                | (None, out1) \<Rightarrow> download_loop_out con ev remote_path exts (fst s1, out1))))"

definition download_image_out ::
  "console \<Rightarrow> env \<Rightarrow> pystr \<Rightarrow> world \<times> pystr list \<Rightarrow> (exn + pystr option) \<times> (world \<times> pystr list)" where
  "download_image_out con ev image_path s =
     download_loop_out con ev (strip_root image_path) extensions s"

section \<open>process_html_file\<close>

definition style_attr :: "pystr \<Rightarrow> pystr" where
  \<open>style_attr v = py ''style="'' @ v @ py ''"''\<close>

definition old_url :: "pystr \<Rightarrow> pystr" where
  "old_url image_path = py ''url('' @ image_path @ py ''.html)''"

definition new_url :: "pystr \<Rightarrow> pystr" where
  "new_url new_path = py ''url('' @ new_path @ py '')''"

text \<open>
  \<open>collect\<close> is the loop over the matches; its accumulator is the pair of \<open>modified\<close> and
  \<open>replacements\<close>. \<open>if new_path:\<close> holds for a string that is not empty.
\<close>

fun collect ::
  "env \<Rightarrow> (pystr \<times> pystr) list \<Rightarrow> bool \<times> (pystr \<times> pystr) list \<Rightarrow> world
   \<Rightarrow> (exn + bool \<times> (pystr \<times> pystr) list) \<times> world" where
  "collect ev [] acc w = (Inr acc, w)"
| "collect ev ((full_style, image_path) # ms) (modified, replacements) w =
     (case download_image ev image_path w of
        (Inl e, w1) \<Rightarrow> (Inl e, w1)
      | (Inr None, w1) \<Rightarrow> collect ev ms (modified, replacements) w1
      | (Inr (Some new_path), w1) \<Rightarrow>
          if new_path \<noteq> [] then
            (let new_style = replace_all (old_url image_path) (new_url new_path) full_style
             in collect ev ms (True, replacements @ [(full_style, new_style)]) w1)
          else collect ev ms (modified, replacements) w1)"

fun apply_replacements :: "(pystr \<times> pystr) list \<Rightarrow> pystr \<Rightarrow> pystr" where
  "apply_replacements [] text = text"
| "apply_replacements ((old_style, new_style) # rs) text =
     apply_replacements rs (replace_first (style_attr old_style) (style_attr new_style) text)"

text \<open>
  Opening a file that is not there raises; so does a write-back that the file system
  refuses. Neither is caught. The count of changed characters that the source computes
  before saving is not used and is left out.
\<close>

definition process_html_file :: "env \<Rightarrow> pystr \<Rightarrow> world \<Rightarrow> (exn + bool) \<times> world" where
  "process_html_file ev filepath w =
     (case files w filepath of
        None \<Rightarrow> (Inl OSError, w)
      | Some text \<Rightarrow>
          (let matches = findall pattern text in
           if matches = [] then (Inr False, w)
           else case collect ev matches (False, []) w of
                  (Inl e, w1) \<Rightarrow> (Inl e, w1)
                | (Inr (modified, replacements), w1) \<Rightarrow>
                    if modified then
                      (let text' = apply_replacements replacements text
                       in case fs_write ev (length (requests w1)) filepath of
                            Some e \<Rightarrow> (Inl e, w1)
                          | None \<Rightarrow> (Inr True, w1\<lparr>files := (files w1)(filepath \<mapsto> text')\<rparr>))
                    else (Inr False, w1)))"

section \<open>The file on disk\<close>

text \<open>
  \<open>process_html_file\<close> opens the file in text mode. Reading turns every line ending
  (\<open>\r\n\<close>, \<open>\r\<close> or \<open>\n\<close>; 13 is the carriage return, 10 the line feed) into \<open>\n\<close>;
  writing turns every \<open>\n\<close> into the line separator of the platform. \<open>written_bytes\<close> is
  what the write-back puts on disk when the file held \<open>d\<close> before the call, if the file is
  written back at all.
\<close>

fun read_text :: "pystr \<Rightarrow> pystr" where
  "read_text [] = []"
| "read_text [c] = [if c = 13 then 10 else c]"
| "read_text (c # d # ds) =
     (if c = 13 then (if d = 10 then 10 # read_text ds else 10 # read_text (d # ds))
      else c # read_text (d # ds))"

definition write_text :: "pystr \<Rightarrow> pystr \<Rightarrow> pystr" where
  "write_text linesep t = concat (map (\<lambda>c. if c = 10 then linesep else [c]) t)"

definition written_bytes :: "pystr \<Rightarrow> env \<Rightarrow> pystr \<Rightarrow> world \<Rightarrow> pystr \<Rightarrow> pystr option" where
  "written_bytes linesep ev filepath w d =
     (case process_html_file ev filepath (w\<lparr>files := (files w)(filepath \<mapsto> read_text d)\<rparr>) of
        (Inr True, w') \<Rightarrow> map_option (write_text linesep) (files w' filepath)
      | _ \<Rightarrow> None)"

section \<open>main\<close>

datatype outcome = SysExit nat | Uncaught exn | Summary nat nat nat

fun main_loop :: "env \<Rightarrow> pystr list \<Rightarrow> nat \<times> nat \<Rightarrow> world \<Rightarrow> (exn + nat \<times> nat) \<times> world" where
  "main_loop ev [] counts w = (Inr counts, w)"
| "main_loop ev (html_file # rest) (processed_count, modified_count) w =
     (case files w html_file of
        None \<Rightarrow> (Inl OSError, w)
      | Some text \<Rightarrow>
          if contains (py ''wsite-section-bg-image'') text then
            (case process_html_file ev html_file w of
               (Inl e, w1) \<Rightarrow> (Inl e, w1)
             | (Inr success, w1) \<Rightarrow>
                 main_loop ev rest
                   (Suc processed_count, if success then Suc modified_count else modified_count) w1)
          else main_loop ev rest (processed_count, modified_count) w)"

definition main :: "env \<Rightarrow> world \<Rightarrow> outcome \<times> world" where
  "main ev w =
     (if \<not> dir_exists ev then (SysExit 1, w)
      else let html_files = glob_html ev in
        if html_files = [] then (SysExit 1, w)
        else case main_loop ev html_files (0, 0) w of
               (Inl e, w1) \<Rightarrow> (Uncaught e, w1)
             | (Inr (processed_count, modified_count), w1) \<Rightarrow>
                 (Summary (length html_files) processed_count modified_count, w1))"

section \<open>Vocabulary of the properties\<close>

text \<open>
  The three strings that \<open>download_image\<close> forms for a stripped path and an extension: the
  URL it requests, the file it saves and the reference it returns.
\<close>

definition remote_url :: "pystr \<Rightarrow> pystr \<Rightarrow> pystr" where
  "remote_url remote_path ext = py ''https://tgv4plus.com/'' @ remote_path @ ext"

definition local_path :: "pystr \<Rightarrow> pystr \<Rightarrow> pystr" where
  "local_path remote_path ext = py ''_/'' @ remote_path @ ext"

definition local_ref :: "pystr \<Rightarrow> pystr \<Rightarrow> pystr" where
  "local_ref remote_path ext = py ''./'' @ remote_path @ ext"

text \<open>
  An attempt issued as request number \<open>n\<close> gets through when the response has status 200
  and the image is saved without an error.
\<close>

definition attempt_ok :: "env \<Rightarrow> nat \<Rightarrow> pystr \<Rightarrow> pystr \<Rightarrow> bool" where
  "attempt_ok ev n remote_path ext =
     (case http_get ev n (remote_url remote_path ext) of
        Inl e \<Rightarrow> False
      | Inr resp \<Rightarrow>
          status_code resp = 200 \<and> fs_write ev (Suc n) (local_path remote_path ext) = None)"

definition body_of :: "env \<Rightarrow> nat \<Rightarrow> pystr \<Rightarrow> pystr" where
  "body_of ev n url = (case http_get ev n url of Inl e \<Rightarrow> [] | Inr resp \<Rightarrow> content resp)"

text \<open>
  The strings a list of atoms denotes: \<open>sem re u pos cp cp'\<close> holds when \<open>re\<close> can consume
  exactly \<open>u\<close> from position \<open>pos\<close>, turning the group positions \<open>cp\<close> into \<open>cp'\<close>.
\<close>

fun sem :: "atom list \<Rightarrow> pystr \<Rightarrow> nat \<Rightarrow> caps \<Rightarrow> caps \<Rightarrow> bool" where
  "sem [] u pos cp cp' = (u = [] \<and> cp' = cp)"
| "sem (Lit l # r) u pos cp cp' = (\<exists>v. u = l @ v \<and> sem r v (pos + length l) cp cp')"
| "sem (Star g k # r) u pos cp cp' =
     (\<exists>a v. u = a @ v \<and> (\<forall>x\<in>set a. in_cls k x) \<and> sem r v (pos + length a) cp cp')"
| "sem (Plus g k # r) u pos cp cp' =
     (\<exists>a v. u = a @ v \<and> a \<noteq> [] \<and> (\<forall>x\<in>set a. in_cls k x)
        \<and> sem r v (pos + length a) cp cp')"
| "sem (GOpen n # r) u pos cp cp' = sem r u pos ((fst cp)(n \<mapsto> pos), snd cp) cp'"
| "sem (GClose n # r) u pos cp cp' = sem r u pos (fst cp, (snd cp)(n \<mapsto> pos)) cp'"

text \<open>\<open>find_sub sub s\<close> is the index of the first occurrence of \<open>sub\<close> in \<open>s\<close>, if any.\<close>

fun find_sub :: "pystr \<Rightarrow> pystr \<Rightarrow> nat option" where
  "find_sub sub [] = (if sub = [] then Some 0 else None)"
| "find_sub sub (c # cs) =
     (if strip_prefix sub (c # cs) \<noteq> None then Some 0 else map_option Suc (find_sub sub cs))"


text \<open>
  \<open>outcomes\<close> lists the matches in order, each with what \<open>download_image\<close> returned for
  it, the world being threaded through the calls; \<open>pending\<close> keeps one replacement for
  each match that has a reference. \<open>subst_first old new t\<close> replaces the first occurrence
  of \<open>style="old"\<close> in \<open>t\<close>, if there is one, and keeps the rest of \<open>t\<close>.
\<close>

fun outcomes ::
  "env \<Rightarrow> (pystr \<times> pystr) list \<Rightarrow> world \<Rightarrow> ((pystr \<times> pystr) \<times> pystr option) list" where
  "outcomes ev [] w = []"
| "outcomes ev ((full_style, image_path) # ms) w =
     (case download_image ev image_path w of
        (Inl e, w1) \<Rightarrow> []
      | (Inr new_path, w1) \<Rightarrow> ((full_style, image_path), new_path) # outcomes ev ms w1)"

fun pending :: "((pystr \<times> pystr) \<times> pystr option) list \<Rightarrow> (pystr \<times> pystr) list" where
  "pending [] = []"
| "pending (((full_style, image_path), None) # os) = pending os"
| "pending (((full_style, image_path), Some new_path) # os) =
     (full_style, replace_all (old_url image_path) (new_url new_path) full_style) # pending os"

definition subst_first :: "pystr \<Rightarrow> pystr \<Rightarrow> pystr \<Rightarrow> pystr" where
  "subst_first old new t =
     (case find_sub (style_attr old) t of
        None \<Rightarrow> t
      | Some i \<Rightarrow> take i t @ style_attr new @ drop (i + length (style_attr old)) t)"

section \<open>Sample documents and environments\<close>

definition index_html :: pystr where
  "index_html = py ''_/index.html''"

definition world_with :: "pystr \<Rightarrow> world" where
  "world_with text = \<lparr>files = [index_html \<mapsto> text], requests = []\<rparr>"

definition bg_style :: pystr where
  "bg_style = py ''background-image: url(_/uploads/a.html)''"

definition bg_style_png :: pystr where
  "bg_style_png = py ''background-image: url(./uploads/a.png)''"

definition section_div :: "pystr \<Rightarrow> pystr" where
  \<open>section_div v = py ''<div class="wsite-section-bg-image" '' @ style_attr v @ py ''></div>''\<close>

definition style_first_div :: "pystr \<Rightarrow> pystr" where
  \<open>style_first_div v =
     py ''<div '' @ style_attr v @ py '' class="wsite-section-bg-image"></div>''\<close>

definition plain_par :: "pystr \<Rightarrow> pystr" where
  \<open>plain_par v = py ''<p '' @ style_attr v @ py ''></p>''\<close>

definition doc_plain :: pystr where
  "doc_plain = py ''<html><body><p>no images</p></body></html>''"

text \<open>Every request is answered with status 200; every write succeeds.\<close>

definition ev_ok :: env where
  "ev_ok = \<lparr>http_get = (\<lambda>n url. Inr (Response 200 [137, 80, 78, 71])),
            fs_write = (\<lambda>n path. None), dir_exists = True, glob_html = [index_html]\<rparr>"

text \<open>Every request is answered with status 404.\<close>

definition ev_404 :: env where
  "ev_404 = \<lparr>http_get = (\<lambda>n url. Inr (Response 404 [])),
             fs_write = (\<lambda>n path. None), dir_exists = True, glob_html = [index_html]\<rparr>"

text \<open>Every request raises.\<close>

definition ev_down :: env where
  "ev_down = \<lparr>http_get = (\<lambda>n url. Inl RequestException),
              fs_write = (\<lambda>n path. None), dir_exists = True, glob_html = [index_html]\<rparr>"

text \<open>The host has no \<open>.png\<close>: status 404 for it, 200 for everything else.\<close>

definition ev_no_png :: env where
  "ev_no_png =
     \<lparr>http_get = (\<lambda>n url. if url = py ''https://tgv4plus.com/uploads/a.png''
                             then Inr (Response 404 []) else Inr (Response 200 [255, 216, 255])),
      fs_write = (\<lambda>n path. None), dir_exists = True, glob_html = [index_html]\<rparr>"

text \<open>Every request is answered with status 200, but the \<open>.png\<close> file cannot be written.\<close>

definition ev_png_unwritable :: env where
  "ev_png_unwritable =
     \<lparr>http_get = (\<lambda>n url. Inr (Response 200 [137, 80, 78, 71])),
      fs_write = (\<lambda>n path. if path = py ''_/uploads/a.png'' then Some OSError else None),
      dir_exists = True, glob_html = [index_html]\<rparr>"

text \<open>A console that prints every line, and one that cannot encode beyond ASCII.\<close>

definition con_quiet :: console where
  "con_quiet = \<lparr>print_error = (\<lambda>n s. None), exn_str = (\<lambda>e. py ''error'')\<rparr>"

definition con_ascii :: console where
  "con_ascii = \<lparr>print_error = (\<lambda>n s. if list_ex (\<lambda>c. 127 < c) s then Some UnicodeEncodeError
                                         else None),
                exn_str = (\<lambda>e. py ''error'')\<rparr>"

text \<open>A world without files and without requests.\<close>

definition no_files :: world where
  "no_files = \<lparr>files = Map.empty, requests = []\<rparr>"

section \<open>Facts about the string operations\<close>

lemma strip_prefix_Some: "strip_prefix p s = Some r \<longleftrightarrow> s = p @ r"
  by (induction p s rule: strip_prefix.induct) auto

section \<open>Soundness of the matcher\<close>

lemma sem_Star_cons:
  "in_cls k c \<Longrightarrow> sem (Star g k # r) u (Suc pos) cp cp' \<Longrightarrow> sem (Star g k # r) (c # u) pos cp cp'"
  apply clarsimp
  subgoal for a v
    by (rule exI[of _ "c # a"]) simp
  done

lemma sem_Star_skip: "sem r u pos cp cp' \<Longrightarrow> sem (Star g k # r) u pos cp cp'"
  by (simp, rule exI[of _ "[]"]) simp

lemma sem_Plus_cons:
  "in_cls k c \<Longrightarrow> sem (Star g k # r) u (Suc pos) cp cp' \<Longrightarrow> sem (Plus g k # r) (c # u) pos cp cp'"
  apply clarsimp
  subgoal for a v
    by (rule exI[of _ "c # a"]) simp
  done

lemma rmatch_sound:
  "rmatch re s pos cp = Some (e, cp') \<Longrightarrow>
   \<exists>u rest. s = u @ rest \<and> e = pos + length u \<and> sem re u pos cp cp'"
proof (induction re s pos cp rule: rmatch.induct)
  case (1 s pos cp)
  then show ?case by simp
next
  case (2 l r s pos cp)
  then obtain s' where s: "s = l @ s'" and m: "rmatch r s' (pos + length l) cp = Some (e, cp')"
    by (auto simp: strip_prefix_Some split: option.splits)
  from "2.IH"[OF _ m] s obtain u rest where "s' = u @ rest" "e = pos + length l + length u"
    "sem r u (pos + length l) cp cp'" by (auto simp: strip_prefix_Some)
  with s show ?case by (intro exI[of _ "l @ u"] exI[of _ rest]) simp
next
  case (3 n r s pos cp)
  then show ?case by simp
next
  case (4 n r s pos cp)
  then show ?case by simp
next
  case (5 k r pos cp)
  then show ?case using sem_Star_skip by fastforce
next
  case (6 k r c cs pos cp)
  show ?case
  proof (cases "in_cls k c \<and> rmatch (Star Greedy k # r) cs (Suc pos) cp \<noteq> None")
    case True
    with "6.prems" have m: "rmatch (Star Greedy k # r) cs (Suc pos) cp = Some (e, cp')"
      by (auto split: option.splits)
    from "6.IH"(1)[OF _ m] True obtain u rest where
      "cs = u @ rest" "e = Suc pos + length u" "sem (Star Greedy k # r) u (Suc pos) cp cp'"
      by blast
    with True show ?thesis
      by (intro exI[of _ "c # u"] exI[of _ rest]) (simp add: sem_Star_cons del: sem.simps)
  next
    case False
    with "6.prems" have m: "rmatch r (c # cs) pos cp = Some (e, cp')"
      by (auto split: option.splits if_splits)
    have "\<exists>u rest. c # cs = u @ rest \<and> e = pos + length u \<and> sem r u pos cp cp'"
    proof (cases "in_cls k c")
      case True
      with False have "rmatch (Star Greedy k # r) cs (Suc pos) cp = None" by blast
      from "6.IH"(2)[OF True this m] show ?thesis .
    next
      case F: False
      from "6.IH"(3)[OF F m] show ?thesis .
    qed
    then show ?thesis using sem_Star_skip by blast
  qed
next
  case (7 k r pos cp)
  then show ?case using sem_Star_skip by fastforce
next
  case (8 k r c cs pos cp)
  show ?case
  proof (cases "rmatch r (c # cs) pos cp")
    case (Some res)
    with "8.prems" have m: "rmatch r (c # cs) pos cp = Some (e, cp')" by simp
    from "8.IH"(1)[OF m] show ?thesis using sem_Star_skip by blast
  next
    case None
    with "8.prems" have k: "in_cls k c"
      and m: "rmatch (Star Lazy k # r) cs (Suc pos) cp = Some (e, cp')"
      by (auto split: if_splits)
    from "8.IH"(2)[OF None k m] obtain u rest where
      "cs = u @ rest" "e = Suc pos + length u" "sem (Star Lazy k # r) u (Suc pos) cp cp'"
      by blast
    with k show ?thesis
      by (intro exI[of _ "c # u"] exI[of _ rest]) (simp add: sem_Star_cons del: sem.simps)
  qed
next
  case (9 g k r pos cp)
  then show ?case by simp
next
  case (10 g k r c cs pos cp)
  then have k: "in_cls k c" and m: "rmatch (Star g k # r) cs (Suc pos) cp = Some (e, cp')"
    by (auto split: if_splits)
  from "10.IH"[OF k m] obtain u rest where
    "cs = u @ rest" "e = Suc pos + length u" "sem (Star g k # r) u (Suc pos) cp cp'"
    by blast
  with k show ?case
    by (intro exI[of _ "c # u"] exI[of _ rest]) (simp add: sem_Plus_cons del: sem.simps)
qed

lemma search_sound:
  "search re s pos = Some (st, e, cp) \<Longrightarrow>
   \<exists>pre u rest. s = pre @ u @ rest \<and> st = pos + length pre \<and> e = st + length u
     \<and> sem re u st (Map.empty, Map.empty) cp"
proof (induction re s pos rule: search.induct)
  case (1 re pos)
  then have "rmatch re [] pos (Map.empty, Map.empty) = Some (e, cp)" "st = pos"
    by (auto split: option.splits)
  from rmatch_sound[OF this(1)] this(2) show ?case by auto
next
  case (2 re c cs pos)
  show ?case
  proof (cases "rmatch re (c # cs) pos (Map.empty, Map.empty)")
    case None
    with 2 obtain pre u rest where "cs = pre @ u @ rest" "st = Suc pos + length pre"
      "e = st + length u" "sem re u st (Map.empty, Map.empty) cp" by auto
    then show ?thesis by (intro exI[of _ "c # pre"] exI[of _ u] exI[of _ rest]) simp
  next
    case (Some res)
    with "2.prems" have m: "rmatch re (c # cs) pos (Map.empty, Map.empty) = Some (e, cp)" "st = pos"
      by auto
    from rmatch_sound[OF m(1)] obtain u rest where "c # cs = u @ rest" "e = pos + length u"
      "sem re u pos (Map.empty, Map.empty) cp" by blast
    with m(2) show ?thesis by (intro exI[of _ "[]"] exI[of _ u] exI[of _ rest]) simp
  qed
qed

lemma findall_from_sound:
  "g \<in> set (findall_from re doc s pos) \<Longrightarrow> doc = dn @ s \<Longrightarrow> length dn = pos \<Longrightarrow>
   \<exists>pre u rest cp. doc = pre @ u @ rest \<and> sem re u (length pre) (Map.empty, Map.empty) cp
     \<and> g = (group doc cp 1, group doc cp 2)"
proof (induction re doc s pos arbitrary: dn rule: findall_from.induct)
  case (1 re doc s pos)
  obtain st e cp where f: "search re s pos = Some (st, e, cp)"
  proof (cases "search re s pos")
    case None
    then have "findall_from re doc s pos = []" by (subst findall_from.simps) simp
    with "1.prems"(1) show ?thesis by simp
  next
    case (Some r)
    then show ?thesis using that by (cases r) auto
  qed
  from search_sound[OF f] obtain pre u rest where d: "s = pre @ u @ rest" "st = pos + length pre"
    "e = st + length u" "sem re u st (Map.empty, Map.empty) cp" by blast
  let ?nxt = "if st < e then e else Suc st"
  from "1.prems"(1) f consider (here) "g = (group doc cp 1, group doc cp 2)"
    | (later) "pos < ?nxt" "?nxt - pos \<le> length s"
        "g \<in> set (findall_from re doc (drop (?nxt - pos) s) ?nxt)"
    by (subst (asm) findall_from.simps) (auto simp: Let_def split: if_splits)
  then show ?case
  proof cases
    case here
    with d "1.prems"(2,3) show ?thesis
      by (intro exI[of _ "dn @ pre"] exI[of _ u] exI[of _ rest] exI[of _ cp]) simp
  next
    case later
    have "doc = (dn @ take (?nxt - pos) s) @ drop (?nxt - pos) s"
      using "1.prems"(2) by simp
    moreover have "length (dn @ take (?nxt - pos) s) = ?nxt"
      using "1.prems"(3) later by simp
    ultimately show ?thesis
      using "1.IH"[OF f refl refl refl _ later(3)] later by blast
  qed
qed


lemma group_mid:
  "fst cp n = Some (length x) \<Longrightarrow> snd cp n = Some (length x + length m) \<Longrightarrow>
   group (x @ m @ y) cp n = m"
  by (simp add: group_def)

lemma sem_pattern_caps:
  assumes "sem pattern u st (Map.empty, Map.empty) cp"
  shows \<open>\<exists>a1 a2 b c ws d e.
     u = py ''class="'' @ a1 @ py ''wsite-section-bg-image'' @ a2 @ py ''"'' @ b @ py ''style="''
         @ c @ py ''background-image:'' @ ws @ py ''url('' @ py ''_/uploads/'' @ d @ py ''.html)'' @ e
         @ py ''"''
     \<and> 34 \<notin> set a1 \<and> 34 \<notin> set a2 \<and> 62 \<notin> set b \<and> 34 \<notin> set c \<and> (\<forall>x\<in>set ws. in_cls Space x)
     \<and> d \<noteq> [] \<and> 41 \<notin> set d \<and> 34 \<notin> set e
     \<and> fst cp 1 = Some (st + length (py ''class="'' @ a1 @ py ''wsite-section-bg-image'' @ a2
                        @ py ''"'' @ b @ py ''style="''))
     \<and> snd cp 1 = Some (st + length (py ''class="'' @ a1 @ py ''wsite-section-bg-image'' @ a2
                        @ py ''"'' @ b @ py ''style="'')
                      + length (c @ py ''background-image:'' @ ws @ py ''url('' @ py ''_/uploads/''
                                @ d @ py ''.html)'' @ e))
     \<and> fst cp 2 = Some (st + length (py ''class="'' @ a1 @ py ''wsite-section-bg-image'' @ a2
                        @ py ''"'' @ b @ py ''style="'' @ c @ py ''background-image:'' @ ws
                        @ py ''url(''))
     \<and> snd cp 2 = Some (st + length (py ''class="'' @ a1 @ py ''wsite-section-bg-image'' @ a2
                        @ py ''"'' @ b @ py ''style="'' @ c @ py ''background-image:'' @ ws
                        @ py ''url('')
                      + length (py ''_/uploads/'' @ d))\<close>
  using assms unfolding pattern_def
  apply (clarsimp simp del: in_cls.simps(2))
  subgoal for a1 a2 b c ws d e
    apply (rule exI[of _ a1], rule exI[of _ a2], rule exI[of _ b], rule exI[of _ c],
        rule exI[of _ ws], rule exI[of _ d], rule exI[of _ e])
    apply (auto simp del: in_cls.simps(2))
    done
  done

lemma findall_pattern_shape:
  assumes "(g1, g2) \<in> set (findall pattern doc)"
  shows \<open>\<exists>pre a1 a2 b c ws d e post.
     doc = pre @ py ''class="'' @ a1 @ py ''wsite-section-bg-image'' @ a2 @ py ''"'' @ b
           @ py ''style="'' @ g1 @ py ''"'' @ post
     \<and> g1 = c @ py ''background-image:'' @ ws @ py ''url('' @ g2 @ py ''.html)'' @ e
     \<and> g2 = py ''_/uploads/'' @ d
     \<and> 34 \<notin> set a1 \<and> 34 \<notin> set a2 \<and> 62 \<notin> set b \<and> 34 \<notin> set c \<and> (\<forall>x\<in>set ws. in_cls Space x)
     \<and> d \<noteq> [] \<and> 41 \<notin> set d \<and> 34 \<notin> set e\<close>
proof -
  from assms have "(g1, g2) \<in> set (findall_from pattern doc doc 0)" by (simp add: findall_def)
  from findall_from_sound[OF this, of "[]"] obtain pre u rest cp where
    doc: "doc = pre @ u @ rest" and sem: "sem pattern u (length pre) (Map.empty, Map.empty) cp"
    and g: "g1 = group doc cp 1" "g2 = group doc cp 2" by auto
  from sem_pattern_caps[OF sem] obtain a1 a2 b c ws d e where
    u: \<open>u = py ''class="'' @ a1 @ py ''wsite-section-bg-image'' @ a2 @ py ''"'' @ b @ py ''style="''
         @ c @ py ''background-image:'' @ ws @ py ''url('' @ py ''_/uploads/'' @ d @ py ''.html)'' @ e
         @ py ''"''\<close>
    and props: \<open>34 \<notin> set a1\<close> \<open>34 \<notin> set a2\<close> \<open>62 \<notin> set b\<close> \<open>34 \<notin> set c\<close>
      \<open>\<forall>x\<in>set ws. in_cls Space x\<close> \<open>d \<noteq> []\<close> \<open>41 \<notin> set d\<close> \<open>34 \<notin> set e\<close>
    and s1: \<open>fst cp 1 = Some (length pre + length (py ''class="'' @ a1 @ py ''wsite-section-bg-image'' @ a2
                        @ py ''"'' @ b @ py ''style="''))\<close>
    and e1: \<open>snd cp 1 = Some (length pre + length (py ''class="'' @ a1 @ py ''wsite-section-bg-image'' @ a2
                        @ py ''"'' @ b @ py ''style="'')
                      + length (c @ py ''background-image:'' @ ws @ py ''url('' @ py ''_/uploads/''
                                @ d @ py ''.html)'' @ e))\<close>
    and s2: \<open>fst cp 2 = Some (length pre + length (py ''class="'' @ a1 @ py ''wsite-section-bg-image'' @ a2
                        @ py ''"'' @ b @ py ''style="'' @ c @ py ''background-image:'' @ ws
                        @ py ''url(''))\<close>
    and e2: \<open>snd cp 2 = Some (length pre + length (py ''class="'' @ a1 @ py ''wsite-section-bg-image'' @ a2
                        @ py ''"'' @ b @ py ''style="'' @ c @ py ''background-image:'' @ ws
                        @ py ''url('')
                      + length (py ''_/uploads/'' @ d))\<close>
    by blast
  let ?h1 = \<open>pre @ py ''class="'' @ a1 @ py ''wsite-section-bg-image'' @ a2 @ py ''"'' @ b @ py ''style="''\<close>
  let ?m1 = \<open>c @ py ''background-image:'' @ ws @ py ''url('' @ py ''_/uploads/'' @ d @ py ''.html)'' @ e\<close>
  let ?h2 = \<open>?h1 @ c @ py ''background-image:'' @ ws @ py ''url(''\<close>
  let ?m2 = \<open>py ''_/uploads/'' @ d\<close>
  have d1: \<open>doc = ?h1 @ ?m1 @ (py ''"'' @ rest)\<close> using doc u by simp
  have d2: \<open>doc = ?h2 @ ?m2 @ (py ''.html)'' @ e @ py ''"'' @ rest)\<close> using doc u by simp
  have "group (?h1 @ ?m1 @ (py ''\"'' @ rest)) cp 1 = ?m1"
    by (rule group_mid) (use s1 e1 in simp_all)
  with g(1) d1 have g1: "g1 = ?m1" by simp
  have \<open>group (?h2 @ ?m2 @ (py ''.html)'' @ e @ py ''"'' @ rest)) cp 2 = ?m2\<close>
    by (rule group_mid) (use s2 e2 in simp_all)
  with g(2) d2 have g2: "g2 = ?m2" by simp
  show ?thesis
    apply (rule exI[of _ pre], rule exI[of _ a1], rule exI[of _ a2], rule exI[of _ b],
        rule exI[of _ c], rule exI[of _ ws], rule exI[of _ d], rule exI[of _ e],
        rule exI[of _ rest])
    using d1 g1 g2 props by simp
qed

section \<open>Facts about download_image\<close>

lemma try_ext_ok:
  "attempt_ok ev (length (requests w)) rp ext \<Longrightarrow>
   try_ext ev rp ext w =
     (Returned (local_ref rp ext),
      w\<lparr>requests := requests w @ [remote_url rp ext],
        files := (files w)(local_path rp ext \<mapsto> body_of ev (length (requests w)) (remote_url rp ext))\<rparr>)"
  by (auto simp: attempt_ok_def try_ext_def Let_def remote_url_def local_path_def local_ref_def
      body_of_def split: sum.splits option.splits)

lemma try_ext_fail:
  "\<not> attempt_ok ev (length (requests w)) rp ext \<Longrightarrow>
   \<exists>a. a \<noteq> Returned (local_ref rp ext) \<and> (\<forall>r. a \<noteq> Returned r) \<and>
     try_ext ev rp ext w = (a, w\<lparr>requests := requests w @ [remote_url rp ext]\<rparr>)"
  by (auto simp: attempt_ok_def try_ext_def Let_def remote_url_def local_path_def local_ref_def
      split: sum.splits option.splits)

lemma download_loop_step_fail:
  "\<not> attempt_ok ev (length (requests w)) rp ext \<Longrightarrow>
   download_loop ev rp (ext # exts) w =
     download_loop ev rp exts (w\<lparr>requests := requests w @ [remote_url rp ext]\<rparr>)"
  using try_ext_fail[of ev w rp ext] by (auto split: attempt.splits)

lemma download_loop_first_ok:
  "i < length exts \<Longrightarrow>
   (\<forall>j<i. \<not> attempt_ok ev (length (requests w) + j) rp (exts ! j)) \<Longrightarrow>
   attempt_ok ev (length (requests w) + i) rp (exts ! i) \<Longrightarrow>
   download_loop ev rp exts w =
     (Inr (Some (local_ref rp (exts ! i))),
      w\<lparr>requests := requests w @ map (remote_url rp) (take (Suc i) exts),
        files := (files w)(local_path rp (exts ! i) \<mapsto>
                   body_of ev (length (requests w) + i) (remote_url rp (exts ! i)))\<rparr>)"
proof (induction exts arbitrary: i w)
  case Nil
  then show ?case by simp
next
  case (Cons ext exts)
  show ?case
  proof (cases i)
    case 0
    with Cons.prems have "attempt_ok ev (length (requests w)) rp ext" by simp
    from try_ext_ok[OF this] 0 show ?thesis by (simp add: fun_upd_def)
  next
    case (Suc k)
    let ?w1 = "w\<lparr>requests := requests w @ [remote_url rp ext]\<rparr>"
    from Cons.prems Suc have f0: "\<not> attempt_ok ev (length (requests w)) rp ext"
      by (metis add.right_neutral nth_Cons_0 zero_less_Suc)
    have k: "k < length exts" using Cons.prems Suc by simp
    have fails: "\<forall>j<k. \<not> attempt_ok ev (length (requests ?w1) + j) rp (exts ! j)"
    proof (intro allI impI)
      fix j assume "j < k"
      then have "Suc j < i" using Suc by simp
      with Cons.prems(2) have "\<not> attempt_ok ev (length (requests w) + Suc j) rp ((ext # exts) ! Suc j)"
        by blast
      then show "\<not> attempt_ok ev (length (requests ?w1) + j) rp (exts ! j)" by simp
    qed
    have ok: "attempt_ok ev (length (requests ?w1) + k) rp (exts ! k)"
      using Cons.prems(3) Suc by simp
    show ?thesis
      unfolding download_loop_step_fail[OF f0] using Cons.IH[OF k fails ok] Suc by simp
  qed
qed

lemma download_loop_all_fail:
  "(\<forall>j<length exts. \<not> attempt_ok ev (length (requests w) + j) rp (exts ! j)) \<Longrightarrow>
   download_loop ev rp exts w = (Inr None, w\<lparr>requests := requests w @ map (remote_url rp) exts\<rparr>)"
proof (induction exts arbitrary: w)
  case Nil
  then show ?case by simp
next
  case (Cons ext exts)
  let ?w1 = "w\<lparr>requests := requests w @ [remote_url rp ext]\<rparr>"
  from Cons.prems have f0: "\<not> attempt_ok ev (length (requests w)) rp ext"
    by (metis add.right_neutral length_greater_0_conv list.distinct(1) nth_Cons_0)
  have fails: "\<forall>j<length exts. \<not> attempt_ok ev (length (requests ?w1) + j) rp (exts ! j)"
  proof (intro allI impI)
    fix j assume "j < length exts"
    then have "Suc j < length (ext # exts)" by simp
    with Cons.prems have "\<not> attempt_ok ev (length (requests w) + Suc j) rp ((ext # exts) ! Suc j)"
      by blast
    then show "\<not> attempt_ok ev (length (requests ?w1) + j) rp (exts ! j)" by simp
  qed
  show ?case unfolding download_loop_step_fail[OF f0] using Cons.IH[OF fails] by simp
qed

lemma download_loop_Inr: "\<exists>r w'. download_loop ev rp exts w = (Inr r, w')"
proof (induction exts arbitrary: w)
  case Nil
  then show ?case by simp
next
  case (Cons ext exts)
  obtain a w1 where t: "try_ext ev rp ext w = (a, w1)" by (cases "try_ext ev rp ext w")
  show ?case using Cons.IH[of w1] t by (cases a) auto
qed

section \<open>Further facts about download_image and main\<close>

lemma download_loop_Some:
  assumes "download_loop ev rp exts w = (Inr (Some r), w1)"
  shows "\<exists>k<length exts. r = local_ref rp (exts ! k)
     \<and> attempt_ok ev (length (requests w) + k) rp (exts ! k)
     \<and> (\<forall>j<k. \<not> attempt_ok ev (length (requests w) + j) rp (exts ! j))
     \<and> w1 = w\<lparr>requests := requests w @ map (remote_url rp) (take (Suc k) exts),
              files := (files w)(local_path rp (exts ! k) \<mapsto>
                         body_of ev (length (requests w) + k) (remote_url rp (exts ! k)))\<rparr>"
proof -
  let ?ok = "\<lambda>j. j < length exts \<and> attempt_ok ev (length (requests w) + j) rp (exts ! j)"
  have "\<exists>j. ?ok j"
  proof (rule ccontr)
    assume "\<not> (\<exists>j. ?ok j)"
    then have "\<forall>j<length exts. \<not> attempt_ok ev (length (requests w) + j) rp (exts ! j)" by blast
    from download_loop_all_fail[OF this] assms show False by simp
  qed
  then obtain k where k: "?ok k" and least: "\<forall>j<k. \<not> ?ok j"
    using exists_least_iff[of ?ok] by blast
  from k least have fails: "\<forall>j<k. \<not> attempt_ok ev (length (requests w) + j) rp (exts ! j)"
    by auto
  from download_loop_first_ok[of k exts ev w rp] k fails assms show ?thesis
    by (intro exI[of _ k]) auto
qed

lemma download_loop_None:
  assumes "download_loop ev rp exts w = (Inr None, w1)"
  shows "(\<forall>j<length exts. \<not> attempt_ok ev (length (requests w) + j) rp (exts ! j))
     \<and> w1 = w\<lparr>requests := requests w @ map (remote_url rp) exts\<rparr>"
proof -
  let ?ok = "\<lambda>j. j < length exts \<and> attempt_ok ev (length (requests w) + j) rp (exts ! j)"
  have none: "\<not> (\<exists>j. ?ok j)"
  proof
    assume "\<exists>j. ?ok j"
    then obtain k where k: "?ok k" and least: "\<forall>j<k. \<not> ?ok j"
      using exists_least_iff[of ?ok] by blast
    from k least have fails: "\<forall>j<k. \<not> attempt_ok ev (length (requests w) + j) rp (exts ! j)"
      by auto
    from download_loop_first_ok[of k exts ev w rp] k fails assms show False by simp
  qed
  then have all: "\<forall>j<length exts. \<not> attempt_ok ev (length (requests w) + j) rp (exts ! j)"
    by blast
  from download_loop_all_fail[OF all] assms all show ?thesis by simp
qed

lemma length_py2: "length (py ''_/'') = 2"
  by (simp add: py_def)

lemma strip_root_marker: "strip_root (py ''_/'' @ q) = q"
  by (simp add: strip_root_def startswith_def strip_prefix_Some length_py2
      del: append_eq_append_conv)

lemma strip_root_other: "\<not> startswith p (py ''_/'') \<Longrightarrow> strip_root p = p"
  by (simp add: strip_root_def)

lemma main_loop_no_match:
  assumes "\<forall>f\<in>set fs. \<forall>t. files w f = Some t \<longrightarrow> findall pattern t = []"
  shows "\<exists>r. main_loop ev fs (pc, mc) w = (r, w) \<and> (\<forall>pc' mc'. r = Inr (pc', mc') \<longrightarrow> mc' = mc)"
  using assms
proof (induction fs arbitrary: pc)
  case Nil
  then show ?case by simp
next
  case (Cons f fs)
  show ?case
  proof (cases "files w f")
    case None
    then show ?thesis by simp
  next
    case (Some t)
    with Cons.prems have nm: "findall pattern t = []" by simp
    have p: "process_html_file ev f w = (Inr False, w)"
      using Some nm by (simp add: process_html_file_def)
    from Cons.prems have rest: "\<forall>f\<in>set fs. \<forall>t. files w f = Some t \<longrightarrow> findall pattern t = []"
      by simp
    from Cons.IH[OF rest, of pc] Cons.IH[OF rest, of "Suc pc"] Some p show ?thesis
      by simp
  qed
qed

lemma strip_root_sample: "strip_root (py ''_/uploads/a'') = py ''uploads/a''"
  by code_simp

lemma findall_doc_plain: "findall pattern doc_plain = []"
  by code_simp

lemma findall_section_div: "findall pattern (section_div bg_style) = [(bg_style, py ''_/uploads/a'')]"
  by code_simp

lemma findall_migrated: "findall pattern (section_div bg_style_png) = []"
  by code_simp

section \<open>Properties of download_image\<close>

text \<open>
  Claim C3, as the code has it. \<open>download_image\<close> tries \<open>.png\<close>, \<open>.jpg\<close>, \<open>.jpeg\<close> in
  this order. When the attempt for the extension at index \<open>i\<close> is the first one that gets a
  response with status 200 and saves the image without an error, the function returns
  \<open>./stripped_path+extension\<close> for that extension, has requested exactly the URLs of the
  extensions up to and including it, and has saved the body under \<open>_/stripped_path+extension\<close>.
  A status 200 whose save raises counts as a failed attempt.
\<close>

theorem download_image_first_saved:
  assumes "i < length extensions"
    and "\<forall>j<i. \<not> attempt_ok ev (length (requests w) + j) (strip_root p) (extensions ! j)"
    and "attempt_ok ev (length (requests w) + i) (strip_root p) (extensions ! i)"
  shows "download_image ev p w =
     (Inr (Some (py ''./'' @ strip_root p @ extensions ! i)),
      w\<lparr>requests := requests w @ map (remote_url (strip_root p)) (take (Suc i) extensions),
        files := (files w)(py ''_/'' @ strip_root p @ extensions ! i \<mapsto>
                   body_of ev (length (requests w) + i)
                     (remote_url (strip_root p) (extensions ! i)))\<rparr>)"
  unfolding download_image_def
  using download_loop_first_ok[OF assms] by (simp add: local_ref_def local_path_def)

theorem download_image_first_saved_witness:
  "fst (download_image ev_no_png (py ''_/uploads/a'') (world_with doc_plain))
     = Inr (Some (py ''./uploads/a.jpg''))
   \<and> requests (snd (download_image ev_no_png (py ''_/uploads/a'') (world_with doc_plain)))
     = [py ''https://tgv4plus.com/uploads/a.png'', py ''https://tgv4plus.com/uploads/a.jpg'']
   \<and> files (snd (download_image ev_no_png (py ''_/uploads/a'') (world_with doc_plain)))
       (py ''_/uploads/a.jpg'') = Some [255, 216, 255]"
proof -
  have h0: "\<not> attempt_ok ev_no_png 0 (py ''uploads/a'') (py ''.png'')" by code_simp
  have h1: "attempt_ok ev_no_png (Suc 0) (py ''uploads/a'') (py ''.jpg'')" by code_simp
  have b: "body_of ev_no_png (Suc 0) (py ''https://tgv4plus.com/uploads/a.jpg'') = [255, 216, 255]"
    by code_simp
  have u: "remote_url (py ''uploads/a'') (py ''.png'') = py ''https://tgv4plus.com/uploads/a.png''"
    "remote_url (py ''uploads/a'') (py ''.jpg'') = py ''https://tgv4plus.com/uploads/a.jpg''"
    "py ''./'' @ py ''uploads/a'' @ py ''.jpg'' = py ''./uploads/a.jpg''"
    "py ''_/'' @ py ''uploads/a'' @ py ''.jpg'' = py ''_/uploads/a.jpg''"
    by (simp_all add: remote_url_def py_def)
  show ?thesis
    using download_image_first_saved[of 1 ev_no_png "world_with doc_plain" "py ''_/uploads/a''"]
    by (simp add: extensions_def world_with_def strip_root_sample h0 h1 b u)
qed

text \<open>
  Claim C3 as stated fails when the first response with status 200 cannot be saved: the
  \<open>.png\<close> request is answered with 200, the write raises inside the \<open>try\<close> block, and the
  loop goes on to request \<open>.jpg\<close> and returns the \<open>.jpg\<close> reference.
\<close>

theorem png_unwritable_tries_jpg:
  "http_get ev_png_unwritable 0 (py ''https://tgv4plus.com/uploads/a.png'')
     = Inr (Response 200 [137, 80, 78, 71])
   \<and> fst (download_image ev_png_unwritable (py ''_/uploads/a'') (world_with doc_plain))
     = Inr (Some (py ''./uploads/a.jpg''))
   \<and> requests (snd (download_image ev_png_unwritable (py ''_/uploads/a'') (world_with doc_plain)))
     = [py ''https://tgv4plus.com/uploads/a.png'', py ''https://tgv4plus.com/uploads/a.jpg'']"
  by code_simp

text \<open>
  Claim C8. A path that begins with \<open>_/\<close> loses these two characters, any other path is
  used as it is; and whenever \<open>download_image\<close> returns a reference, the reference, the
  last URL requested and the file saved are all built from the same stripped path and the
  same extension.
\<close>

theorem download_image_lockstep:
  "strip_root (py ''_/'' @ q) = q \<and>
   (\<not> startswith p (py ''_/'') \<longrightarrow> strip_root p = p) \<and>
   (download_image ev p w = (Inr (Some r), w') \<longrightarrow>
      (\<exists>ext\<in>set extensions.
          r = py ''./'' @ strip_root p @ ext
        \<and> last (requests w') = py ''https://tgv4plus.com/'' @ strip_root p @ ext
        \<and> (\<exists>b. files w' (py ''_/'' @ strip_root p @ ext) = Some b)))"
proof (intro conjI impI)
  show "strip_root (py ''_/'' @ q) = q" by (rule strip_root_marker)
  show "strip_root p = p" if "\<not> startswith p (py ''_/'')" using that by (rule strip_root_other)
  assume "download_image ev p w = (Inr (Some r), w')"
  then have "download_loop ev (strip_root p) extensions w = (Inr (Some r), w')"
    by (simp add: download_image_def)
  from download_loop_Some[OF this] obtain k where k: "k < length extensions"
    and r: "r = local_ref (strip_root p) (extensions ! k)"
    and w': "w' = w\<lparr>requests := requests w @ map (remote_url (strip_root p)) (take (Suc k) extensions),
              files := (files w)(local_path (strip_root p) (extensions ! k) \<mapsto>
                         body_of ev (length (requests w) + k)
                           (remote_url (strip_root p) (extensions ! k)))\<rparr>"
    by blast
  have "last (map (remote_url (strip_root p)) (take (Suc k) extensions))
        = remote_url (strip_root p) (extensions ! k)"
    using k by (simp add: take_Suc_conv_app_nth)
  then have "last (requests w') = remote_url (strip_root p) (extensions ! k)"
    using w' k by (simp add: take_Suc_conv_app_nth)
  with k r w' show "\<exists>ext\<in>set extensions.
          r = py ''./'' @ strip_root p @ ext
        \<and> last (requests w') = py ''https://tgv4plus.com/'' @ strip_root p @ ext
        \<and> (\<exists>b. files w' (py ''_/'' @ strip_root p @ ext) = Some b)"
    by (intro bexI[of _ "extensions ! k"])
      (simp_all add: local_ref_def local_path_def remote_url_def)
qed

theorem download_image_lockstep_witness:
  "download_image ev_ok (py ''_/uploads/a'') (world_with doc_plain)
     = (Inr (Some (py ''./uploads/a.png'')),
        snd (download_image ev_ok (py ''_/uploads/a'') (world_with doc_plain)))
   \<and> (\<exists>ext\<in>set extensions.
          py ''./uploads/a.png'' = py ''./'' @ strip_root (py ''_/uploads/a'') @ ext
        \<and> last (requests (snd (download_image ev_ok (py ''_/uploads/a'') (world_with doc_plain))))
            = py ''https://tgv4plus.com/'' @ strip_root (py ''_/uploads/a'') @ ext
        \<and> (\<exists>b. files (snd (download_image ev_ok (py ''_/uploads/a'') (world_with doc_plain)))
                  (py ''_/'' @ strip_root (py ''_/uploads/a'') @ ext) = Some b))"
proof -
  have "fst (download_image ev_ok (py ''_/uploads/a'') (world_with doc_plain))
          = Inr (Some (py ''./uploads/a.png''))" by code_simp
  then have h: "download_image ev_ok (py ''_/uploads/a'') (world_with doc_plain)
     = (Inr (Some (py ''./uploads/a.png'')),
        snd (download_image ev_ok (py ''_/uploads/a'') (world_with doc_plain)))"
    by (metis prod.collapse)
  with download_image_lockstep[of "[]" "py ''_/uploads/a''" ev_ok "world_with doc_plain"
      "py ''./uploads/a.png''" "snd (download_image ev_ok (py ''_/uploads/a'') (world_with doc_plain))"]
  show ?thesis by blast
qed

section \<open>Properties of process_html_file and main\<close>

text \<open>
  Claim C5. When the pattern matches nowhere in the text of the file,
  \<open>process_html_file\<close> returns \<open>False\<close> and leaves the world as it was: no file is
  written and no request is issued.
\<close>

theorem no_match_returns_false:
  assumes "files w filepath = Some text" and "findall pattern text = []"
  shows "process_html_file ev filepath w = (Inr False, w)"
  using assms by (simp add: process_html_file_def)

theorem no_match_returns_false_witness:
  "process_html_file ev_ok index_html (world_with doc_plain) = (Inr False, world_with doc_plain)"
  using no_match_returns_false[of "world_with doc_plain" index_html doc_plain ev_ok]
    findall_doc_plain
  by (simp add: world_with_def)

text \<open>
  Claim C6. When the pattern matches once and \<open>download_image\<close> returns \<open>None\<close> for that
  match, \<open>process_html_file\<close> returns \<open>False\<close> and no file has changed; the three URLs
  have been requested.
\<close>

theorem single_match_fetch_fails:
  assumes "files w filepath = Some text"
    and "findall pattern text = [(full_style, image_path)]"
    and "download_image ev image_path w = (Inr None, w1)"
  shows "process_html_file ev filepath w = (Inr False, w1) \<and> files w1 = files w
     \<and> requests w1 = requests w @ map (remote_url (strip_root image_path)) extensions"
proof -
  from assms(3) have "download_loop ev (strip_root image_path) extensions w = (Inr None, w1)"
    by (simp add: download_image_def)
  from download_loop_None[OF this]
  have w1: "w1 = w\<lparr>requests := requests w @ map (remote_url (strip_root image_path)) extensions\<rparr>"
    by blast
  have "process_html_file ev filepath w = (Inr False, w1)"
    using assms by (simp add: process_html_file_def)
  with w1 show ?thesis by simp
qed

theorem single_match_fetch_fails_witness:
  "process_html_file ev_404 index_html (world_with (section_div bg_style))
     = (Inr False, snd (download_image ev_404 (py ''_/uploads/a'') (world_with (section_div bg_style))))
   \<and> files (snd (download_image ev_404 (py ''_/uploads/a'') (world_with (section_div bg_style))))
     = files (world_with (section_div bg_style))"
proof -
  have "fst (download_image ev_404 (py ''_/uploads/a'') (world_with (section_div bg_style)))
          = Inr None" by code_simp
  then have h: "download_image ev_404 (py ''_/uploads/a'') (world_with (section_div bg_style))
     = (Inr None, snd (download_image ev_404 (py ''_/uploads/a'') (world_with (section_div bg_style))))"
    by (metis prod.collapse)
  have f: "files (world_with (section_div bg_style)) index_html = Some (section_div bg_style)"
    by (simp add: world_with_def)
  from single_match_fetch_fails[OF f findall_section_div h] show ?thesis by blast
qed

text \<open>
  Claim C9. When no file listed by the driver contains a match of the pattern any more,
  a run of \<open>main\<close> leaves the world as it was (no request, no write) and counts no file as
  modified.
\<close>

theorem main_idempotent_on_migrated:
  assumes "\<forall>f\<in>set (glob_html ev). \<forall>t. files w f = Some t \<longrightarrow> findall pattern t = []"
  shows "snd (main ev w) = w \<and> (\<forall>n pc mc. fst (main ev w) = Summary n pc mc \<longrightarrow> mc = 0)"
proof -
  from main_loop_no_match[OF assms, of ev 0 0] obtain r where
    r: "main_loop ev (glob_html ev) (0, 0) w = (r, w)"
    and mc: "\<forall>pc' mc'. r = Inr (pc', mc') \<longrightarrow> mc' = 0" by blast
  show ?thesis
    using r mc by (cases r) (auto simp: main_def Let_def split: prod.splits)
qed

theorem main_idempotent_on_migrated_witness:
  "files (snd (main ev_ok (world_with (section_div bg_style)))) index_html
     = Some (section_div bg_style_png)
   \<and> snd (main ev_ok (snd (main ev_ok (world_with (section_div bg_style)))))
     = snd (main ev_ok (world_with (section_div bg_style)))"
proof -
  have f: "files (snd (main ev_ok (world_with (section_div bg_style)))) index_html
     = Some (section_div bg_style_png)" by code_simp
  have "\<forall>f\<in>set (glob_html ev_ok).
          \<forall>t. files (snd (main ev_ok (world_with (section_div bg_style)))) f = Some t
              \<longrightarrow> findall pattern t = []"
    using f findall_migrated by (simp add: ev_ok_def)
  from main_idempotent_on_migrated[OF this] f show ?thesis by blast
qed

section \<open>Facts about the replacements\<close>


lemma replace_first_find:
  "replace_first old new s =
     (case find_sub old s of None \<Rightarrow> s | Some i \<Rightarrow> take i s @ new @ drop (i + length old) s)"
proof (induction s)
  case Nil
  then show ?case by simp
next
  case (Cons c cs)
  show ?case
  proof (cases "strip_prefix old (c # cs)")
    case (Some r)
    then have "c # cs = old @ r" by (simp add: strip_prefix_Some)
    then have "drop (length old) (c # cs) = r" by (metis append_eq_conv_conj)
    with Some show ?thesis by simp
  next
    case None
    with Cons.IH show ?thesis by (cases "find_sub old cs") simp_all
  qed
qed

lemma find_sub_occ: "s = x @ old @ y \<Longrightarrow> \<exists>i. find_sub old s = Some i"
proof (induction s arbitrary: x)
  case Nil
  then show ?case by simp
next
  case (Cons c cs)
  show ?case
  proof (cases "strip_prefix old (c # cs)")
    case (Some r)
    then show ?thesis by simp
  next
    case None
    have "x \<noteq> []"
    proof
      assume "x = []"
      with Cons.prems have "strip_prefix old (c # cs) = Some y" by (simp add: strip_prefix_Some)
      with None show False by simp
    qed
    then obtain x' where "cs = x' @ old @ y" using Cons.prems by (cases x) auto
    from Cons.IH[OF this] None show ?thesis by auto
  qed
qed



section \<open>Facts about a document with a single match\<close>

lemma download_image_Some_nonempty:
  assumes "download_image ev p w = (Inr (Some r), w1)"
  shows "r \<noteq> []"
proof -
  from assms have "download_loop ev (strip_root p) extensions w = (Inr (Some r), w1)"
    by (simp add: download_image_def)
  from download_loop_Some[OF this] show ?thesis by (auto simp: local_ref_def py_def)
qed

lemma process_single_success:
  assumes "files w filepath = Some text"
    and "findall pattern text = [(full_style, image_path)]"
    and "download_image ev image_path w = (Inr (Some new_path), w1)"
    and "fs_write ev (length (requests w1)) filepath = None"
  shows "process_html_file ev filepath w =
     (Inr True,
      w1\<lparr>files := (files w1)(filepath \<mapsto>
         replace_first (style_attr full_style)
           (style_attr (replace_all (old_url image_path) (new_url new_path) full_style)) text)\<rparr>)"
  using assms download_image_Some_nonempty[OF assms(3)]
  by (simp add: process_html_file_def Let_def)

lemma findall_pattern_style_attr:
  assumes "(g1, g2) \<in> set (findall pattern doc)"
  shows "\<exists>x y. doc = x @ style_attr g1 @ y"
proof -
  from findall_pattern_shape[OF assms] obtain pre a1 a2 b post where
    \<open>doc = pre @ py ''class="'' @ a1 @ py ''wsite-section-bg-image'' @ a2 @ py ''"'' @ b
           @ py ''style="'' @ g1 @ py ''"'' @ post\<close> by blast
  then have \<open>doc = (pre @ py ''class="'' @ a1 @ py ''wsite-section-bg-image'' @ a2 @ py ''"'' @ b)
           @ style_attr g1 @ post\<close> by (simp add: style_attr_def)
  then show ?thesis by blast
qed

lemma findall_pattern_old_url:
  assumes "(g1, g2) \<in> set (findall pattern doc)"
  shows "\<exists>c e d. g1 = c @ old_url g2 @ e \<and> g2 = py ''_/'' @ py ''uploads/'' @ d"
proof -
  from findall_pattern_shape[OF assms] obtain c ws d e where
    g1: \<open>g1 = c @ py ''background-image:'' @ ws @ py ''url('' @ g2 @ py ''.html)'' @ e\<close>
    and g2: \<open>g2 = py ''_/uploads/'' @ d\<close> by blast
  from g1 have "g1 = (c @ py ''background-image:'' @ ws) @ old_url g2 @ e"
    by (simp add: old_url_def)
  moreover from g2 have "g2 = py ''_/'' @ py ''uploads/'' @ d" by (simp add: py_def)
  ultimately show ?thesis by blast
qed

lemma old_url_nonempty: "old_url p \<noteq> []"
  by (simp add: old_url_def py_def)

section \<open>Properties of the rewriting\<close>



text \<open>
  Claim C10, as the code has it. Every match of the pattern has the class attribute with
  the marker class first, then text without \<open>>\<close>, then the captured style attribute, whose
  value holds \<open>background-image:\<close>, optional white space and \<open>url(path.html)\<close> with a path
  that starts with \<open>_/uploads/\<close>. An element whose style attribute comes before its class
  attribute, or lies in another tag, is therefore never matched.
\<close>

theorem pattern_needs_class_before_style:
  assumes "(full_style, image_path) \<in> set (findall pattern text)"
  shows \<open>\<exists>pre a1 a2 b post c ws e d.
       text = pre @ py ''class="'' @ a1 @ py ''wsite-section-bg-image'' @ a2 @ py ''"'' @ b
              @ py ''style="'' @ full_style @ py ''"'' @ post
     \<and> 34 \<notin> set a1 \<and> 34 \<notin> set a2 \<and> 62 \<notin> set b
     \<and> full_style = c @ py ''background-image:'' @ ws @ py ''url('' @ image_path @ py ''.html)'' @ e
     \<and> image_path = py ''_/uploads/'' @ d \<and> d \<noteq> []\<close>
  using findall_pattern_shape[OF assms] by blast

theorem pattern_needs_class_before_style_witness:
  \<open>(bg_style, py ''_/uploads/a'') \<in> set (findall pattern (section_div bg_style))
   \<and> (\<exists>pre a1 a2 b post c ws e d.
       section_div bg_style
         = pre @ py ''class="'' @ a1 @ py ''wsite-section-bg-image'' @ a2 @ py ''"'' @ b
              @ py ''style="'' @ bg_style @ py ''"'' @ post
     \<and> 34 \<notin> set a1 \<and> 34 \<notin> set a2 \<and> 62 \<notin> set b
     \<and> bg_style = c @ py ''background-image:'' @ ws @ py ''url('' @ py ''_/uploads/a'' @ py ''.html)'' @ e
     \<and> py ''_/uploads/a'' = py ''_/uploads/'' @ d \<and> d \<noteq> [])\<close>
proof -
  have m: "(bg_style, py ''_/uploads/a'') \<in> set (findall pattern (section_div bg_style))"
    by (simp add: findall_section_div)
  from pattern_needs_class_before_style[OF m] m show ?thesis by blast
qed

text \<open>
  Claim C10 as stated fails on "never rewritten": an element with the style attribute
  before the class attribute is not matched, but when its attribute text equals that of a
  matched element further down, it is the first occurrence and it is the one rewritten.
\<close>

theorem style_first_div_rewritten:
  "findall pattern (style_first_div bg_style) = []
   \<and> findall pattern (style_first_div bg_style @ section_div bg_style)
       = [(bg_style, py ''_/uploads/a'')]
   \<and> files (snd (process_html_file ev_ok index_html
               (world_with (style_first_div bg_style @ section_div bg_style)))) index_html
       = Some (style_first_div bg_style_png @ section_div bg_style)"
  by code_simp

section \<open>Facts about the console output\<close>

lemma print_line_quiet:
  "\<forall>n t. print_error con n t = None \<Longrightarrow> print_line con s out = (None, out @ [s])"
  by (simp add: print_line_def)

lemma print_line_raises:
  "print_line con s out = (Some e, out') \<Longrightarrow> \<exists>n t. print_error con n t = Some e"
  by (auto simp: print_line_def split: option.splits)

lemma try_ext_out_quiet:
  assumes "\<forall>n t. print_error con n t = None"
  shows "\<exists>out'. try_ext_out con ev rp ext (w, out)
           = (fst (try_ext ev rp ext w), (snd (try_ext ev rp ext w), out'))"
proof -
  obtain a w1 where t: "try_ext ev rp ext w = (a, w1)" by (cases "try_ext ev rp ext w")
  show ?thesis
    using t by (cases a) (simp_all add: try_ext_out_def print_line_quiet[OF assms])
qed

lemma download_loop_out_quiet:
  assumes "\<forall>n t. print_error con n t = None"
  shows "\<exists>out'. download_loop_out con ev rp exts (w, out)
           = (fst (download_loop ev rp exts w), (snd (download_loop ev rp exts w), out'))"
proof (induction exts arbitrary: w out)
  case Nil
  then show ?case by simp
next
  case (Cons ext exts)
  obtain a w1 where t: "try_ext ev rp ext w = (a, w1)" by (cases "try_ext ev rp ext w")
  let ?out1 = "out @ [py ''  Trying to download: '' @ py ''https://tgv4plus.com/'' @ rp @ ext]"
  from try_ext_out_quiet[OF assms, of ev rp ext w ?out1] t obtain out2 where
    to: "try_ext_out con ev rp ext (w, ?out1) = (a, (w1, out2))" by auto
  show ?case
  proof (cases a)
    case (Returned r)
    with t to show ?thesis by (simp add: print_line_quiet[OF assms])
  next
    case Fallthrough
    with t to Cons.IH[of w1 out2] show ?thesis by (simp add: print_line_quiet[OF assms])
  next
    case (Raised e)
    let ?out3 = "out2 @ [py ''  '' @ [10007] @ py '' Failed to download '' @ ext @ py '': ''
                        @ exn_str con e]"
    from Raised t to Cons.IH[of w1 ?out3] show ?thesis
      by (simp add: print_line_quiet[OF assms])
  qed
qed

lemma download_loop_out_Inl:
  "download_loop_out con ev rp exts s = (Inl e, s') \<Longrightarrow> \<exists>n t. print_error con n t = Some e"
proof (induction exts arbitrary: s)
  case Nil
  then show ?case by simp
next
  case (Cons ext exts)
  let ?l1 = "py ''  Trying to download: '' @ py ''https://tgv4plus.com/'' @ rp @ ext"
  obtain r1 out where p1: "print_line con ?l1 (snd s) = (r1, out)"
    by (cases "print_line con ?l1 (snd s)")
  show ?case
  proof (cases r1)
    case (Some e1)
    with p1 Cons.prems have "e1 = e" by simp
    with Some p1 print_line_raises show ?thesis by blast
  next
    case None
    obtain a s1 where t: "try_ext_out con ev rp ext (fst s, out) = (a, s1)"
      by (cases "try_ext_out con ev rp ext (fst s, out)")
    show ?thesis
    proof (cases a)
      case (Returned r)
      with None p1 t Cons.prems show ?thesis by simp
    next
      case Fallthrough
      with None p1 t Cons.prems have "download_loop_out con ev rp exts s1 = (Inl e, s')" by simp
      from Cons.IH[OF this] show ?thesis .
    next
      case (Raised e0)
      let ?l2 = "py ''  '' @ [10007] @ py '' Failed to download '' @ ext @ py '': '' @ exn_str con e0"
      obtain r2 out1 where p2: "print_line con ?l2 (snd s1) = (r2, out1)"
        by (cases "print_line con ?l2 (snd s1)")
      show ?thesis
      proof (cases r2)
        case (Some e2)
        with Raised None p1 t p2 Cons.prems have "e2 = e" by simp
        with Some p2 print_line_raises show ?thesis by blast
      next
        case N2: None
        with Raised None p1 t p2 Cons.prems
        have "download_loop_out con ev rp exts (fst s1, out1) = (Inl e, s')" by simp
        from Cons.IH[OF this] show ?thesis .
      qed
    qed
  qed
qed

section \<open>Properties of download_image with its console output\<close>

text \<open>
  Claim C7, as the code has it. An exception reaches the caller of \<open>download_image\<close> only
  when one of its own \<open>print\<close> calls raises it: what the request or the save raises is
  caught. When no \<open>print\<close> raises, \<open>download_image\<close> always returns a value, which is the
  one of the definition without console output, and when no attempt gets through, each
  extension has been requested once, in order, and the result is \<open>None\<close>.
\<close>

theorem download_image_raises_only_from_print:
  "(download_image_out con ev p s = (Inl e, s') \<longrightarrow> (\<exists>n t. print_error con n t = Some e))
   \<and> ((\<forall>n t. print_error con n t = None) \<longrightarrow>
        (\<exists>r s''. download_image_out con ev p s = (Inr r, s''))
      \<and> fst (download_image_out con ev p s) = fst (download_image ev p (fst s))
      \<and> fst (snd (download_image_out con ev p s)) = snd (download_image ev p (fst s))
      \<and> ((\<forall>j<length extensions.
             \<not> attempt_ok ev (length (requests (fst s)) + j) (strip_root p) (extensions ! j))
          \<longrightarrow> fst (download_image_out con ev p s) = Inr None
            \<and> requests (fst (snd (download_image_out con ev p s)))
                = requests (fst s) @ map (remote_url (strip_root p)) extensions))"
proof -
  have A: "download_image_out con ev p s = (Inl e, s') \<longrightarrow> (\<exists>n t. print_error con n t = Some e)"
    unfolding download_image_out_def using download_loop_out_Inl by blast
  have B: "(\<exists>r s''. download_image_out con ev p s = (Inr r, s''))
      \<and> fst (download_image_out con ev p s) = fst (download_image ev p (fst s))
      \<and> fst (snd (download_image_out con ev p s)) = snd (download_image ev p (fst s))
      \<and> ((\<forall>j<length extensions.
             \<not> attempt_ok ev (length (requests (fst s)) + j) (strip_root p) (extensions ! j))
          \<longrightarrow> fst (download_image_out con ev p s) = Inr None
            \<and> requests (fst (snd (download_image_out con ev p s)))
                = requests (fst s) @ map (remote_url (strip_root p)) extensions)"
    if q: "\<forall>n t. print_error con n t = None"
  proof -
    obtain w out where s: "s = (w, out)" by (cases s)
    from download_loop_out_quiet[OF q, of ev "strip_root p" extensions w out] obtain out' where
      eq: "download_image_out con ev p s
             = (fst (download_image ev p w), (snd (download_image ev p w), out'))"
      by (auto simp: download_image_out_def download_image_def s)
    from download_loop_Inr[of ev "strip_root p" extensions w] obtain r w' where
      r: "download_image ev p w = (Inr r, w')" by (auto simp: download_image_def)
    from eq r have b1: "\<exists>r s''. download_image_out con ev p s = (Inr r, s'')" by simp
    from eq s have b2: "fst (download_image_out con ev p s) = fst (download_image ev p (fst s))"
      by simp
    from eq s have b3: "fst (snd (download_image_out con ev p s)) = snd (download_image ev p (fst s))"
      by simp
    have b4: "fst (download_image_out con ev p s) = Inr None
            \<and> requests (fst (snd (download_image_out con ev p s)))
                = requests (fst s) @ map (remote_url (strip_root p)) extensions"
      if "\<forall>j<length extensions.
             \<not> attempt_ok ev (length (requests (fst s)) + j) (strip_root p) (extensions ! j)"
    proof -
      from that have "\<forall>j<length extensions.
             \<not> attempt_ok ev (length (requests w) + j) (strip_root p) (extensions ! j)"
        by (simp add: s)
      from download_loop_all_fail[OF this]
      have "download_image ev p w
          = (Inr None, w\<lparr>requests := requests w @ map (remote_url (strip_root p)) extensions\<rparr>)"
        by (simp add: download_image_def)
      with eq s show ?thesis by simp
    qed
    from b1 b2 b3 b4 show ?thesis by blast
  qed
  from A B show ?thesis by blast
qed

theorem download_image_raises_only_from_print_witness:
  "print_error con_quiet 0 (py ''  Trying to download: https://tgv4plus.com/uploads/a.png'') = None
   \<and> \<not> attempt_ok ev_down 0 (py ''uploads/a'') (py ''.png'')
   \<and> \<not> attempt_ok ev_down 1 (py ''uploads/a'') (py ''.jpg'')
   \<and> \<not> attempt_ok ev_down 2 (py ''uploads/a'') (py ''.jpeg'')
   \<and> fst (download_image_out con_quiet ev_down (py ''_/uploads/a'') (no_files, [])) = Inr None
   \<and> requests (fst (snd (download_image_out con_quiet ev_down (py ''_/uploads/a'') (no_files, []))))
       = [py ''https://tgv4plus.com/uploads/a.png'', py ''https://tgv4plus.com/uploads/a.jpg'',
          py ''https://tgv4plus.com/uploads/a.jpeg'']"
proof -
  have q: "\<forall>n t. print_error con_quiet n t = None" by (simp add: con_quiet_def)
  have h: "\<forall>j<length extensions.
       \<not> attempt_ok ev_down (length (requests (fst (no_files, [] :: pystr list))) + j)
           (strip_root (py ''_/uploads/a'')) (extensions ! j)"
    by (simp add: attempt_ok_def ev_down_def)
  note t = download_image_raises_only_from_print[of con_quiet ev_down "py ''_/uploads/a''"
      "(no_files, [])" RequestException "(no_files, [])", THEN conjunct2, THEN mp, OF q]
  note t4 = t[THEN conjunct2, THEN conjunct2, THEN conjunct2, THEN mp, OF h]
  have u: "map (remote_url (strip_root (py ''_/uploads/a''))) extensions
      = [py ''https://tgv4plus.com/uploads/a.png'', py ''https://tgv4plus.com/uploads/a.jpg'',
          py ''https://tgv4plus.com/uploads/a.jpeg'']"
    by code_simp
  from t4 u show ?thesis
    by (simp add: attempt_ok_def ev_down_def con_quiet_def no_files_def)
qed

text \<open>
  Claim C7 as stated fails on a console that cannot encode the cross of the failure
  line: the request raises, the handler catches it, and the \<open>print\<close> inside the handler
  raises \<open>UnicodeEncodeError\<close>, which reaches the caller after a single request.
\<close>

theorem failed_print_reaches_caller:
  "http_get ev_down 0 (py ''https://tgv4plus.com/uploads/a.png'') = Inl RequestException
   \<and> print_error con_ascii 0 (py ''  Trying to download: https://tgv4plus.com/uploads/a.png'') = None
   \<and> print_error con_ascii 1 (py ''  '' @ [10007] @ py '' Failed to download .png: error'')
       = Some UnicodeEncodeError
   \<and> fst (download_image_out con_ascii ev_down (py ''_/uploads/a'') (no_files, []))
       = Inl UnicodeEncodeError
   \<and> requests (fst (snd (download_image_out con_ascii ev_down (py ''_/uploads/a'') (no_files, []))))
       = [py ''https://tgv4plus.com/uploads/a.png'']"
  by code_simp

section \<open>Facts about the pending replacements\<close>

lemma outcomes_matches: "map fst (outcomes ev ms w) = ms"
proof (induction ms arbitrary: w)
  case Nil
  then show ?case by simp
next
  case (Cons mt ms)
  obtain full_style image_path where mt: "mt = (full_style, image_path)" by (cases mt)
  from download_loop_Inr[of ev "strip_root image_path" extensions w] obtain r w1 where
    "download_image ev image_path w = (Inr r, w1)" by (auto simp: download_image_def)
  with Cons.IH[of w1] mt show ?case by simp
qed

lemma pending_length: "length (pending outs) = length (filter (\<lambda>oc. snd oc \<noteq> None) outs)"
  by (induction outs rule: pending.induct) simp_all

lemma collect_pending:
  "\<exists>w'. collect ev ms (modified, replacements) w
     = (Inr (modified \<or> pending (outcomes ev ms w) \<noteq> [],
             replacements @ pending (outcomes ev ms w)), w')"
proof (induction ms arbitrary: modified replacements w)
  case Nil
  then show ?case by simp
next
  case (Cons mt ms)
  obtain full_style image_path where mt: "mt = (full_style, image_path)" by (cases mt)
  from download_loop_Inr[of ev "strip_root image_path" extensions w] obtain r w1 where
    d: "download_image ev image_path w = (Inr r, w1)" by (auto simp: download_image_def)
  show ?case
  proof (cases r)
    case None
    with d mt Cons.IH[of modified replacements w1] show ?thesis by simp
  next
    case (Some new_path)
    with d have ne: "new_path \<noteq> []" using download_image_Some_nonempty by blast
    let ?ns = "replace_all (old_url image_path) (new_url new_path) full_style"
    from Cons.IH[of True "replacements @ [(full_style, ?ns)]" w1] Some d mt ne show ?thesis
      by (simp add: Let_def)
  qed
qed

lemma replace_first_subst: "replace_first (style_attr old) (style_attr new) t = subst_first old new t"
  by (simp add: replace_first_find subst_first_def)

lemma apply_replacements_foldl:
  "apply_replacements reps t = foldl (\<lambda>t (old, new). subst_first old new t) t reps"
  by (induction reps arbitrary: t) (auto simp: replace_first_subst)

section \<open>Properties of the pending replacements\<close>

text \<open>
  Claim C2, as the code has it. There is one outcome for each match, in the order of the
  matches, and one pending replacement for each match whose download returned a
  reference, whether or not another match captured the same style value. When the file is
  written back, its text is the original text after the pending replacements have been
  applied in that order, each one replacing the first occurrence of \<open>style="old"\<close> in the
  text as it is at that moment and keeping the rest, so that later occurrences of the same
  attribute stay as they are unless a further pending replacement reaches them.
\<close>

theorem one_replacement_per_successful_match:
  assumes "files w filepath = Some text"
    and "process_html_file ev filepath w = (Inr True, w')"
  shows "map fst (outcomes ev (findall pattern text) w) = findall pattern text
     \<and> length (pending (outcomes ev (findall pattern text) w))
         = length (filter (\<lambda>oc. snd oc \<noteq> None) (outcomes ev (findall pattern text) w))
     \<and> files w' filepath =
         Some (foldl (\<lambda>t (old, new). subst_first old new t) text
                 (pending (outcomes ev (findall pattern text) w)))"
proof -
  from collect_pending[of ev "findall pattern text" False "[]" w] obtain w1 where
    c: "collect ev (findall pattern text) (False, []) w
          = (Inr (pending (outcomes ev (findall pattern text) w) \<noteq> [],
                  pending (outcomes ev (findall pattern text) w)), w1)" by auto
  from assms c have "w' = w1\<lparr>files := (files w1)(filepath \<mapsto>
        apply_replacements (pending (outcomes ev (findall pattern text) w)) text)\<rparr>"
    by (auto simp: process_html_file_def Let_def split: if_splits option.splits)
  then show ?thesis
    by (simp add: outcomes_matches pending_length apply_replacements_foldl)
qed

theorem one_replacement_per_successful_match_witness:
  "process_html_file ev_ok index_html (world_with (plain_par bg_style @ section_div bg_style))
     = (Inr True, snd (process_html_file ev_ok index_html
                        (world_with (plain_par bg_style @ section_div bg_style))))
   \<and> pending (outcomes ev_ok (findall pattern (plain_par bg_style @ section_div bg_style))
                (world_with (plain_par bg_style @ section_div bg_style)))
       = [(bg_style, bg_style_png)]
   \<and> files (snd (process_html_file ev_ok index_html
               (world_with (plain_par bg_style @ section_div bg_style)))) index_html
       = Some (foldl (\<lambda>t (old, new). subst_first old new t)
                 (plain_par bg_style @ section_div bg_style)
                 (pending (outcomes ev_ok (findall pattern (plain_par bg_style @ section_div bg_style))
                    (world_with (plain_par bg_style @ section_div bg_style)))))
   \<and> foldl (\<lambda>t (old, new). subst_first old new t) (plain_par bg_style @ section_div bg_style)
        [(bg_style, bg_style_png)]
       = plain_par bg_style_png @ section_div bg_style"
proof -
  let ?doc = "plain_par bg_style @ section_div bg_style"
  have "fst (process_html_file ev_ok index_html (world_with ?doc)) = Inr True" by code_simp
  then have p: "process_html_file ev_ok index_html (world_with ?doc)
     = (Inr True, snd (process_html_file ev_ok index_html (world_with ?doc)))"
    by (metis prod.collapse)
  have f: "files (world_with ?doc) index_html = Some ?doc" by (simp add: world_with_def)
  have pe: "pending (outcomes ev_ok (findall pattern ?doc) (world_with ?doc))
       = [(bg_style, bg_style_png)]" by code_simp
  have fo: "foldl (\<lambda>t (old, new). subst_first old new t) ?doc [(bg_style, bg_style_png)]
       = plain_par bg_style_png @ section_div bg_style" by code_simp
  note t = one_replacement_per_successful_match[OF f p, THEN conjunct2, THEN conjunct2]
  from p pe fo t show ?thesis by simp
qed

text \<open>
  Claim C2 as stated fails when two matches capture the same style value: both
  occurrences are replaced, and no occurrence of the old attribute is left.
\<close>

theorem twins_both_substituted:
  "findall pattern (section_div bg_style @ section_div bg_style)
     = [(bg_style, py ''_/uploads/a''), (bg_style, py ''_/uploads/a'')]
   \<and> files (snd (process_html_file ev_ok index_html
               (world_with (section_div bg_style @ section_div bg_style)))) index_html
     = Some (section_div bg_style_png @ section_div bg_style_png)
   \<and> \<not> contains (style_attr bg_style) (section_div bg_style_png @ section_div bg_style_png)"
  by code_simp

section \<open>Facts about the written file\<close>

lemma find_sub_first:
  "find_sub sub s = Some i \<Longrightarrow>
   s = take i s @ sub @ drop (i + length sub) s \<and> (\<forall>j<i. strip_prefix sub (drop j s) = None)"
proof (induction s arbitrary: i)
  case Nil
  then show ?case by (auto split: if_splits)
next
  case (Cons c cs)
  show ?case
  proof (cases "strip_prefix sub (c # cs)")
    case (Some r)
    with Cons.prems have i: "i = 0" by simp
    from Some have "c # cs = sub @ r" by (simp add: strip_prefix_Some)
    then have "c # cs = sub @ drop (length sub) (c # cs)" by (metis append_eq_conv_conj)
    with i show ?thesis by simp
  next
    case None
    with Cons.prems obtain k where k: "find_sub sub cs = Some k" and i: "i = Suc k" by auto
    from Cons.IH[OF k] have eq: "cs = take k cs @ sub @ drop (k + length sub) cs"
      and first: "\<forall>j<k. strip_prefix sub (drop j cs) = None" by blast+
    have "\<forall>j<i. strip_prefix sub (drop j (c # cs)) = None"
    proof (intro allI impI)
      fix j assume "j < i"
      show "strip_prefix sub (drop j (c # cs)) = None"
      proof (cases j)
        case 0
        with None show ?thesis by simp
      next
        case (Suc j')
        with \<open>j < i\<close> i first show ?thesis by simp
      qed
    qed
    moreover from eq i have "c # cs = take i (c # cs) @ sub @ drop (i + length sub) (c # cs)"
      by simp
    ultimately show ?thesis by blast
  qed
qed

lemma replace_all_find:
  "old \<noteq> [] \<Longrightarrow>
   replace_all old new s =
     (case find_sub old s of
        None \<Rightarrow> s
      | Some k \<Rightarrow> take k s @ new @ replace_all old new (drop (k + length old) s))"
proof (induction s)
  case Nil
  then show ?case by (subst replace_all.simps) (cases old; simp)
next
  case (Cons c cs)
  show ?case
  proof (cases "strip_prefix old (c # cs)")
    case (Some r)
    then have "c # cs = old @ r" by (simp add: strip_prefix_Some)
    then have "drop (length old) (c # cs) = r" by (metis append_eq_conv_conj)
    moreover have "replace_all old new (c # cs) = new @ replace_all old new r"
      using Some Cons.prems by (subst replace_all.simps) simp
    ultimately show ?thesis using Some by simp
  next
    case None
    have "replace_all old new (c # cs) = c # replace_all old new cs"
      using None Cons.prems by (subst replace_all.simps) simp
    with None Cons.IH[OF Cons.prems] show ?thesis by (cases "find_sub old cs") simp_all
  qed
qed

lemma read_text_no_cr: "13 \<notin> set d \<Longrightarrow> read_text d = d"
  by (induction d rule: read_text.induct) auto

lemma write_text_lf: "write_text [10] t = t"
  by (induction t) (auto simp: write_text_def)

lemma findall_read_section_div:
  "findall pattern (read_text (section_div bg_style)) = [(bg_style, py ''_/uploads/a'')]"
  by code_simp

section \<open>Properties of the written file\<close>

text \<open>
  Claim C4, as the code has it. Let the pattern match once in the text read from the
  file, let the \<open>.png\<close> attempt get through and the write-back succeed. Then the captured
  path is \<open>_/\<close> followed by the stripped path, and the text written back is the text read
  in which the first occurrence of \<open>style="captured style"\<close> (at index \<open>i\<close>, with no
  occurrence before it) has been replaced by the same attribute with the first
  \<open>url(path.html)\<close> of its value (at index \<open>k\<close>) turned into \<open>url(./stripped_path.png)\<close>
  and every further \<open>url(path.html)\<close> of the value replaced likewise; the text before and
  after that attribute is kept. The bytes on disk are this text with every \<open>\n\<close> written
  as the line separator; when the file holds no carriage return and the separator is
  \<open>\n\<close>, the bytes before and after the attribute are those of the file before the call.
\<close>

theorem single_match_png_rewrite:
  assumes "findall pattern (read_text d) = [(full_style, image_path)]"
    and "attempt_ok ev (length (requests w)) (strip_root image_path) (py ''.png'')"
    and "fs_write ev (Suc (length (requests w))) filepath = None"
  shows "\<exists>i k.
       image_path = py ''_/'' @ strip_root image_path
     \<and> find_sub (style_attr full_style) (read_text d) = Some i
     \<and> read_text d = take i (read_text d) @ style_attr full_style
                      @ drop (i + length (style_attr full_style)) (read_text d)
     \<and> (\<forall>j<i. strip_prefix (style_attr full_style) (drop j (read_text d)) = None)
     \<and> find_sub (old_url image_path) full_style = Some k
     \<and> written_bytes linesep ev filepath w d =
         Some (write_text linesep
                (take i (read_text d)
                 @ style_attr
                     (take k full_style
                      @ new_url (py ''./'' @ strip_root image_path @ py ''.png'')
                      @ replace_all (old_url image_path)
                          (new_url (py ''./'' @ strip_root image_path @ py ''.png''))
                          (drop (k + length (old_url image_path)) full_style))
                 @ drop (i + length (style_attr full_style)) (read_text d)))
     \<and> (13 \<notin> set d \<and> linesep = [10] \<longrightarrow>
          written_bytes linesep ev filepath w d =
            Some (take i d
                  @ style_attr
                      (take k full_style
                       @ new_url (py ''./'' @ strip_root image_path @ py ''.png'')
                       @ replace_all (old_url image_path)
                           (new_url (py ''./'' @ strip_root image_path @ py ''.png''))
                           (drop (k + length (old_url image_path)) full_style))
                  @ drop (i + length (style_attr full_style)) d))"
proof -
  let ?text = "read_text d"
  let ?w0 = "w\<lparr>files := (files w)(filepath \<mapsto> ?text)\<rparr>"
  let ?np = "py ''./'' @ strip_root image_path @ py ''.png''"
  let ?old = "old_url image_path"
  let ?ns = "replace_all ?old (new_url ?np) full_style"
  let ?sa = "style_attr full_style"
  let ?w1 = "?w0\<lparr>requests := requests ?w0 @ map (remote_url (strip_root image_path)) (take (Suc 0) extensions),
        files := (files ?w0)(local_path (strip_root image_path) (extensions ! 0) \<mapsto>
                   body_of ev (length (requests ?w0) + 0)
                     (remote_url (strip_root image_path) (extensions ! 0)))\<rparr>"
  have e0: "extensions ! 0 = py ''.png''" by (simp add: extensions_def)
  have "download_loop ev (strip_root image_path) extensions ?w0
          = (Inr (Some (local_ref (strip_root image_path) (extensions ! 0))), ?w1)"
    by (rule download_loop_first_ok) (use assms(2) e0 in \<open>simp_all add: extensions_def\<close>)
  then have dl: "download_image ev image_path ?w0 = (Inr (Some ?np), ?w1)"
    by (simp add: download_image_def local_ref_def e0)
  have wr: "fs_write ev (length (requests ?w1)) filepath = None"
    using assms(3) by (simp add: extensions_def)
  have f: "files ?w0 filepath = Some ?text" by simp
  have p: "process_html_file ev filepath ?w0 =
     (Inr True, ?w1\<lparr>files := (files ?w1)(filepath \<mapsto> replace_first ?sa (style_attr ?ns) ?text)\<rparr>)"
    by (rule process_single_success[OF f assms(1) dl wr])
  then have wb: "written_bytes linesep ev filepath w d
      = Some (write_text linesep (replace_first ?sa (style_attr ?ns) ?text))"
    by (simp add: written_bytes_def)
  from assms(1) have mem: "(full_style, image_path) \<in> set (findall pattern ?text)" by simp
  from findall_pattern_style_attr[OF mem] obtain x y where "?text = x @ ?sa @ y" by blast
  from find_sub_occ[OF this] obtain i where i: "find_sub ?sa ?text = Some i" by blast
  from find_sub_first[OF i] have occ: "?text = take i ?text @ ?sa @ drop (i + length ?sa) ?text"
    and first: "\<forall>j<i. strip_prefix ?sa (drop j ?text) = None" by blast+
  from findall_pattern_old_url[OF mem] obtain c e d' where
    fs: "full_style = c @ ?old @ e" and ip: "image_path = py ''_/'' @ py ''uploads/'' @ d'"
    by blast
  from find_sub_occ[OF fs] obtain k where k: "find_sub ?old full_style = Some k" by blast
  have ns: "?ns = take k full_style @ new_url ?np
                  @ replace_all ?old (new_url ?np) (drop (k + length ?old) full_style)"
    using replace_all_find[OF old_url_nonempty, of image_path "new_url ?np" full_style] k by simp
  have sr: "image_path = py ''_/'' @ strip_root image_path"
    using ip strip_root_marker[of "py ''uploads/'' @ d'"] by simp
  have rf: "replace_first ?sa (style_attr ?ns) ?text
      = take i ?text @ style_attr ?ns @ drop (i + length ?sa) ?text"
    using i by (simp add: replace_first_find)
  have wb': "written_bytes linesep ev filepath w d
      = Some (write_text linesep (take i ?text
          @ style_attr (take k full_style @ new_url ?np
                  @ replace_all ?old (new_url ?np) (drop (k + length ?old) full_style))
          @ drop (i + length ?sa) ?text))"
    using wb rf ns by simp
  have lf: "written_bytes linesep ev filepath w d
      = Some (take i d
          @ style_attr (take k full_style @ new_url ?np
                  @ replace_all ?old (new_url ?np) (drop (k + length ?old) full_style))
          @ drop (i + length ?sa) d)" if "13 \<notin> set d \<and> linesep = [10]"
    using wb' that by (simp add: read_text_no_cr write_text_lf)
  show ?thesis
    apply (rule exI[of _ i], rule exI[of _ k])
    using sr i occ first k wb' lf by blast
qed

theorem single_match_png_rewrite_witness:
  "findall pattern (read_text (section_div bg_style)) = [(bg_style, py ''_/uploads/a'')]
   \<and> written_bytes [10] ev_ok index_html no_files (section_div bg_style)
       = Some (section_div bg_style_png)
   \<and> (\<exists>i k.
       py ''_/uploads/a'' = py ''_/'' @ strip_root (py ''_/uploads/a'')
     \<and> find_sub (style_attr bg_style) (read_text (section_div bg_style)) = Some i
     \<and> find_sub (old_url (py ''_/uploads/a'')) bg_style = Some k
     \<and> written_bytes [10] ev_ok index_html no_files (section_div bg_style) =
         Some (write_text [10]
                (take i (read_text (section_div bg_style))
                 @ style_attr
                     (take k bg_style
                      @ new_url (py ''./'' @ strip_root (py ''_/uploads/a'') @ py ''.png'')
                      @ replace_all (old_url (py ''_/uploads/a''))
                          (new_url (py ''./'' @ strip_root (py ''_/uploads/a'') @ py ''.png''))
                          (drop (k + length (old_url (py ''_/uploads/a''))) bg_style))
                 @ drop (i + length (style_attr bg_style)) (read_text (section_div bg_style)))))"
proof -
  have ok: "attempt_ok ev_ok (length (requests no_files)) (strip_root (py ''_/uploads/a''))
              (py ''.png'')"
    by (simp add: attempt_ok_def ev_ok_def)
  have wr: "fs_write ev_ok (Suc (length (requests no_files))) index_html = None"
    by (simp add: ev_ok_def)
  have wb: "written_bytes [10] ev_ok index_html no_files (section_div bg_style)
       = Some (section_div bg_style_png)" by code_simp
  from single_match_png_rewrite[OF findall_read_section_div ok wr, of "[10]"]
  obtain i k where
       "py ''_/uploads/a'' = py ''_/'' @ strip_root (py ''_/uploads/a'')"
       "find_sub (style_attr bg_style) (read_text (section_div bg_style)) = Some i"
       "find_sub (old_url (py ''_/uploads/a'')) bg_style = Some k"
       "written_bytes [10] ev_ok index_html no_files (section_div bg_style) =
         Some (write_text [10]
                (take i (read_text (section_div bg_style))
                 @ style_attr
                     (take k bg_style
                      @ new_url (py ''./'' @ strip_root (py ''_/uploads/a'') @ py ''.png'')
                      @ replace_all (old_url (py ''_/uploads/a''))
                          (new_url (py ''./'' @ strip_root (py ''_/uploads/a'') @ py ''.png''))
                          (drop (k + length (old_url (py ''_/uploads/a''))) bg_style))
                 @ drop (i + length (style_attr bg_style)) (read_text (section_div bg_style))))"
    by blast
  with findall_read_section_div wb show ?thesis by blast
qed

text \<open>
  Claim C4 as stated fails on the name of the new reference and on the bytes of the
  file: for the captured path \<open>_/uploads/a\<close> the file written contains
  \<open>url(./uploads/a.png)\<close>, not \<open>url(./_/uploads/a.png)\<close>; and a file that ends its line with
  \<open>\r\n\<close> is written back, with separator \<open>\n\<close>, without the carriage return, a byte
  outside the rewritten attribute.
\<close>

theorem png_reference_and_line_endings:
  "findall pattern (read_text (section_div bg_style)) = [(bg_style, py ''_/uploads/a'')]
   \<and> fst (download_image ev_ok (py ''_/uploads/a'') no_files) = Inr (Some (py ''./uploads/a.png''))
   \<and> written_bytes [10] ev_ok index_html no_files (section_div bg_style)
       = Some (section_div bg_style_png)
   \<and> contains (py ''url(./uploads/a.png)'') (section_div bg_style_png)
   \<and> \<not> contains (py ''url(./_/uploads/a.png)'') (section_div bg_style_png)
   \<and> findall pattern (read_text (section_div bg_style @ [13, 10]))
       = [(bg_style, py ''_/uploads/a'')]
   \<and> written_bytes [10] ev_ok index_html no_files (section_div bg_style @ [13, 10])
       = Some (section_div bg_style_png @ [10])"
  by code_simp

end
